theory Spec2Isabelle
  imports Main "HOL-Library.Sublist" "HOL-Library.AList"
begin

section \<open>Python strings\<close>

text \<open>
  A Python \<^verbatim>\<open>str\<close> is a sequence of Unicode code points, so a string is a list of
  natural numbers (the code points); \<open>str\<close> turns an ASCII literal into such a list.
  The letter \<^verbatim>\<open>U+00D8\<close> of the name written in the examples is the code point 216.
\<close>

type_synonym pystr = "nat list"

definition str :: "string \<Rightarrow> pystr" where
  "str s = map of_char s"

text \<open>
  \<^verbatim>\<open>str.isspace\<close>, which is also the class \<^verbatim>\<open>\s\<close> of \<^verbatim>\<open>re\<close> on \<^verbatim>\<open>str\<close> patterns:
  the ASCII white space (tab, line feed, vertical tab, form feed, carriage return, the
  separators 28 to 31, the blank) and the Unicode white space beyond ASCII.
\<close>

definition is_space :: "nat \<Rightarrow> bool" where
  "is_space c \<longleftrightarrow> (9 \<le> c \<and> c \<le> 13) \<or> (28 \<le> c \<and> c \<le> 32) \<or> c = 133 \<or> c = 160
     \<or> c = 5760 \<or> (8192 \<le> c \<and> c \<le> 8202) \<or> c = 8232 \<or> c = 8233 \<or> c = 8239
     \<or> c = 8287 \<or> c = 12288"

text \<open>\<^verbatim>\<open>s.strip()\<close>: white space removed at both ends.\<close>

definition strip :: "pystr \<Rightarrow> pystr" where
  "strip s = rev (dropWhile is_space (rev (dropWhile is_space s)))"

text \<open>\<^verbatim>\<open>s.split(sep)\<close> for a separator of one character: one piece more than separators.\<close>

fun split_on :: "nat \<Rightarrow> pystr \<Rightarrow> pystr list" where
  "split_on sep [] = [[]]"
| "split_on sep (c # cs) =
     (if c = sep then [] # split_on sep cs
      else (case split_on sep cs of [] \<Rightarrow> [[c]] | l # ls \<Rightarrow> (c # l) # ls))"

text \<open>
  \<^verbatim>\<open>s.split()\<close>: the maximal runs of characters that are not white space; \<open>cur\<close> is
  the token being read.
\<close>

fun split_ws_aux :: "pystr \<Rightarrow> pystr \<Rightarrow> pystr list" where
  "split_ws_aux cur [] = (if cur = [] then [] else [cur])"
| "split_ws_aux cur (c # cs) =
     (if is_space c then (if cur = [] then split_ws_aux [] cs else cur # split_ws_aux [] cs)
      else split_ws_aux (cur @ [c]) cs)"

definition split_ws :: "pystr \<Rightarrow> pystr list" where
  "split_ws s = split_ws_aux [] s"

text \<open>
  \<^verbatim>\<open>s[a:b]\<close> for offsets \<open>a\<close> and \<open>b\<close> that are not negative: the empty string when
  \<open>b \<le> a\<close>, and cut at the end of \<open>s\<close>.
\<close>

definition slice :: "pystr \<Rightarrow> nat \<Rightarrow> nat \<Rightarrow> pystr" where
  "slice s a b = take (b - a) (drop a s)"

section \<open>Regular expressions of the module \<^verbatim>\<open>re\<close>\<close>

text \<open>
  The constructs the script's patterns are built from: a literal text, \<^verbatim>\<open>\s\<close>,
  \<^verbatim>\<open>.\<close> (any character but the line feed, no flag being given), \<^verbatim>\<open>\Z\<close>,
  concatenation, \<^verbatim>\<open>|\<close>, the greedy \<^verbatim>\<open>*\<close> and the lazy \<^verbatim>\<open>+?\<close>.
\<close>

datatype regex =
    Lit pystr
  | Space
  | Dot
  | EndZ
  | Seq regex regex
  | Alt regex regex
  | StarG regex
  | PlusL regex

text \<open>
  \<open>rmatch r s\<close> lists what is left of \<open>s\<close> after each way of matching \<open>r\<close> at the
  start of \<open>s\<close>, in the order in which the backtracking matcher tries them: a greedy
  star tries one more iteration before it tries to stop, a lazy plus tries to stop
  after an iteration before it tries another one, an alternative tries its left branch
  first. An iteration goes on only when it has consumed a character.
\<close>

fun rmatch :: "regex \<Rightarrow> pystr \<Rightarrow> pystr list" where
  "rmatch (Lit l) s = (if prefix l s then [drop (length l) s] else [])"
| "rmatch Space s = (case s of [] \<Rightarrow> [] | c # t \<Rightarrow> if is_space c then [t] else [])"
| "rmatch Dot s = (case s of [] \<Rightarrow> [] | c # t \<Rightarrow> if c \<noteq> 10 then [t] else [])"
| "rmatch EndZ s = (if s = [] then [[]] else [])"
| "rmatch (Seq a b) s = concat (map (rmatch b) (rmatch a s))"
| "rmatch (Alt a b) s = rmatch a s @ rmatch b s"
| "rmatch (StarG a) [] = [[]]"
| "rmatch (StarG a) (c # cs) =
     concat (map (\<lambda>t. if length t < Suc (length cs) then rmatch (StarG a) t else [])
                 (rmatch a (c # cs))) @ [c # cs]"
| "rmatch (PlusL a) [] = rmatch a []"
| "rmatch (PlusL a) (c # cs) =
     concat (map (\<lambda>t. t # (if length t < Suc (length cs) then rmatch (PlusL a) t else []))
                 (rmatch a (c # cs)))"

text \<open>
  \<^verbatim>\<open>re.search(r, s)\<close> tries the offsets of \<open>s\<close> from the left, the end of \<open>s\<close>
  included, and stops at the first one where \<open>r\<close> matches. \<open>re_search_start\<close> is
  \<^verbatim>\<open>m.start()\<close> of the match found, \<open>None\<close> when there is none.
\<close>

fun search_from :: "regex \<Rightarrow> nat \<Rightarrow> pystr \<Rightarrow> nat option" where
  "search_from r p [] = (if rmatch r [] \<noteq> [] then Some p else None)"
| "search_from r p (c # t) =
     (if rmatch r (c # t) \<noteq> [] then Some p else search_from r (p + 1) t)"

definition re_search_start :: "regex \<Rightarrow> pystr \<Rightarrow> nat option" where
  "re_search_start r s = search_from r 0 s"

text \<open>
  A pattern \<^verbatim>\<open>pre(grp)post\<close> with its one capturing group: the matches at the start
  of \<open>s\<close> in the matcher's order, each giving the text of the group, which is the part
  of the input between the end of \<open>pre\<close> and the end of \<open>grp\<close>. \<open>re_search_group\<close>
  is \<^verbatim>\<open>m.group(1)\<close> of the match \<^verbatim>\<open>re.search\<close> finds.
\<close>

definition group_matches :: "regex \<Rightarrow> regex \<Rightarrow> regex \<Rightarrow> pystr \<Rightarrow> pystr list" where
  "group_matches pre grp post s =
     concat (map (\<lambda>s1. concat (map (\<lambda>s2. map (\<lambda>s3. take (length s1 - length s2) s1)
                                              (rmatch post s2))
                                  (rmatch grp s1)))
                 (rmatch pre s))"

definition match_group :: "regex \<Rightarrow> regex \<Rightarrow> regex \<Rightarrow> pystr \<Rightarrow> pystr option" where
  "match_group pre grp post s =
     (case group_matches pre grp post s of [] \<Rightarrow> None | g # _ \<Rightarrow> Some g)"

fun re_search_group :: "regex \<Rightarrow> regex \<Rightarrow> regex \<Rightarrow> pystr \<Rightarrow> pystr option" where
  "re_search_group pre grp post [] = match_group pre grp post []"
| "re_search_group pre grp post (c # t) =
     (case match_group pre grp post (c # t) of
        Some g \<Rightarrow> Some g
      | None \<Rightarrow> re_search_group pre grp post t)"

section \<open>The extraction\<close>

definition clubs :: "pystr list" where
  "clubs = map str
     [''Arsenal'', ''Aston Villa'', ''Bournemouth'', ''Brentford'', ''Brighton'', ''Chelsea'',
      ''Crystal Palace'', ''Everton'', ''Fulham'', ''Ipswich'', ''Leicester'', ''Liverpool'',
      ''Man City'', ''Man Utd'', ''Newcastle'', ''Nott'' @ [CHR 0x27] @ ''m Forest'',
      ''Southampton'', ''Spurs'', ''West Ham'', ''Wolves'']"

text \<open>\<^verbatim>\<open>\s*\n\<close>, and \<^verbatim>\<open>.*\n\<close> with its lazy repetition \<^verbatim>\<open>(?:.*\n)+?\<close>.\<close>

definition ws_nl :: regex where
  "ws_nl = Seq (StarG Space) (Lit [10])"

definition line_re :: regex where
  "line_re = Seq (StarG Dot) (Lit [10])"

definition lines_lazy :: regex where
  "lines_lazy = PlusL line_re"

text \<open>
  The anchor of a club, \<^verbatim>\<open>f"{club}\\s*\\nPenalties"\<close>. No name of the roster has a
  character that is special in a pattern, so the name stands for itself.
\<close>

definition club_pattern :: "pystr \<Rightarrow> regex" where
  "club_pattern club = Seq (Lit club) (Seq ws_nl (Lit (str ''Penalties'')))"

text \<open>
  The record of a club is a Python dictionary: its keys in the order of insertion,
  an assignment to a key that is there replacing the value in place.
\<close>

type_synonym club_data = "(pystr \<times> pystr list) list"

definition init_club_data :: club_data where
  "init_club_data =
     [(str ''penalties'', []), (str ''direct_free_kicks'', []),
      (str ''corners_indirect_free_kicks'', []), (str ''notes'', [])]"

text \<open>\<^verbatim>\<open>[p.strip() for p in txt.split('\n') if p.strip()]\<close>\<close>

definition name_list :: "pystr \<Rightarrow> pystr list" where
  "name_list txt = map strip (filter (\<lambda>p. strip p \<noteq> []) (split_on 10 txt))"

text \<open>\<^verbatim>\<open>Penalties\s*\n((?:.*\n)+?)Direct free-kicks\<close>\<close>

definition penalties_match :: "pystr \<Rightarrow> pystr option" where
  "penalties_match club_section =
     re_search_group (Seq (Lit (str ''Penalties'')) ws_nl) lines_lazy
       (Lit (str ''Direct free-kicks'')) club_section"

text \<open>\<^verbatim>\<open>Direct free-kicks\s*\n((?:.*\n)+?)Corners & indirect free-kicks\<close>\<close>

definition free_kicks_match :: "pystr \<Rightarrow> pystr option" where
  "free_kicks_match club_section =
     re_search_group (Seq (Lit (str ''Direct free-kicks'')) ws_nl) lines_lazy
       (Lit (str ''Corners & indirect free-kicks'')) club_section"

text \<open>\<^verbatim>\<open>Corners & indirect free-kicks\s*\n((?:.*\n)+?)(?:\n\n|\Z)\<close>\<close>

definition corners_match :: "pystr \<Rightarrow> pystr option" where
  "corners_match club_section =
     re_search_group (Seq (Lit (str ''Corners & indirect free-kicks'')) ws_nl) lines_lazy
       (Alt (Lit [10, 10]) EndZ) club_section"

text \<open>
  The loop over \<^verbatim>\<open>corners_lines\<close>, its state being \<^verbatim>\<open>corner_takers\<close>,
  \<^verbatim>\<open>notes\<close> and \<^verbatim>\<open>in_notes\<close>.
\<close>

fun classify_lines ::
  "pystr list \<Rightarrow> pystr list \<times> pystr list \<times> bool \<Rightarrow> pystr list \<times> pystr list \<times> bool" where
  "classify_lines [] st = st"
| "classify_lines (line # rest) (corner_takers, notes, in_notes) =
     (let line' = strip line in
      if line' = [] then classify_lines rest (corner_takers, notes, in_notes)
      else if length (split_ws line') \<le> 2 \<and> \<not> in_notes
        then classify_lines rest (corner_takers @ [line'], notes, in_notes)
        else classify_lines rest (corner_takers, notes @ [line'], True))"

text \<open>The body of the loop over the clubs from the section of a club on.\<close>

definition club_record :: "pystr \<Rightarrow> club_data" where
  "club_record club_section =
     (let d0 = init_club_data;
          d1 = (case penalties_match club_section of
                  None \<Rightarrow> d0
                | Some g \<Rightarrow> AList.update (str ''penalties'') (name_list (strip g)) d0);
          d2 = (case free_kicks_match club_section of
                  None \<Rightarrow> d1
                | Some g \<Rightarrow> AList.update (str ''direct_free_kicks'') (name_list (strip g)) d1)
      in (case corners_match club_section of
            None \<Rightarrow> d2
          | Some g \<Rightarrow>
              (case classify_lines (split_on 10 (strip g)) ([], [], False) of
                 (corner_takers, notes, in_notes) \<Rightarrow>
                   AList.update (str ''notes'') notes
                     (AList.update (str ''corners_indirect_free_kicks'') corner_takers d2))))"

definition end_pos :: "pystr \<Rightarrow> nat \<Rightarrow> nat" where
  "end_pos content i =
     (if i < length clubs - 1
      then (case re_search_start (club_pattern (clubs ! (i + 1))) content of
              Some next_start \<Rightarrow> next_start
            | None \<Rightarrow> length content)
      else length content)"

definition club_section :: "pystr \<Rightarrow> nat \<Rightarrow> nat \<Rightarrow> pystr" where
  "club_section content i start_pos = slice content start_pos (end_pos content i)"

definition process_club ::
  "pystr \<Rightarrow> nat \<Rightarrow> (pystr \<times> club_data) list \<Rightarrow> (pystr \<times> club_data) list" where
  "process_club content i set_piece_data =
     (case re_search_start (club_pattern (clubs ! i)) content of
        None \<Rightarrow> set_piece_data
      | Some start_pos \<Rightarrow>
          AList.update (clubs ! i) (club_record (club_section content i start_pos))
            set_piece_data)"

text \<open>
  The dictionary \<^verbatim>\<open>set_piece_data\<close> after the loop over \<^verbatim>\<open>enumerate(clubs)\<close>,
  from the text read.
\<close>

definition set_piece_data :: "pystr \<Rightarrow> (pystr \<times> club_data) list" where
  "set_piece_data content = fold (process_club content) [0..<length clubs] []"

section \<open>Auxiliary functions and predicates\<close>

text \<open>
  What is left of the input after \<^verbatim>\<open>\s*\n\<close>, in the matcher's order (the longest run
  of white space first), and what is left after each number of whole lines, the fewest
  first. The lemmas \<open>rmatch_ws_nl\<close> and \<open>rmatch_lines_lazy\<close> show that the matcher
  computes these lists on the two patterns.
\<close>

fun ws_nl_ends :: "pystr \<Rightarrow> pystr list" where
  "ws_nl_ends [] = []"
| "ws_nl_ends (c # cs) =
     (if is_space c then ws_nl_ends cs @ (if c = 10 then [cs] else []) else [])"

fun line_ends :: "pystr \<Rightarrow> pystr list" where
  "line_ends [] = []"
| "line_ends (c # cs) = (if c = 10 then cs # line_ends cs else line_ends cs)"

text \<open>
  The anchor of a club in the words of the specification: at the offset \<open>p\<close> of the
  text stand the name of the club, optional white space, a line feed and the word
  \<^verbatim>\<open>Penalties\<close>. \<open>first_anchor\<close> is the first such offset.
\<close>

definition anchor_at :: "pystr \<Rightarrow> pystr \<Rightarrow> nat \<Rightarrow> bool" where
  "anchor_at club content p \<longleftrightarrow>
     (\<exists>ws. (\<forall>c \<in> set ws. is_space c) \<and>
           prefix (club @ ws @ [10] @ str ''Penalties'') (drop p content))"

definition first_anchor :: "pystr \<Rightarrow> pystr \<Rightarrow> nat \<Rightarrow> bool" where
  "first_anchor club content p \<longleftrightarrow>
     anchor_at club content p \<and> (\<forall>q < p. \<not> anchor_at club content q)"

section \<open>Writing the result\<close>

text \<open>
  \<^verbatim>\<open>json.dump(set_piece_data, f, indent=4, ensure_ascii=False)\<close> of the standard
  library, on the shape of value the script builds: a dictionary of dictionaries of
  lists of strings. With \<^verbatim>\<open>ensure_ascii=False\<close> a string is written between double
  quotes with only the double quote, the backslash and the control characters below
  32 escaped; every other character is written as it is.
\<close>

definition hex_digit :: "nat \<Rightarrow> nat" where
  "hex_digit d = (if d < 10 then 48 + d else 87 + d)"

definition escape_char :: "nat \<Rightarrow> pystr" where
  "escape_char c =
     (if c = 34 then [92, 34]
      else if c = 92 then [92, 92]
      else if c = 10 then [92, 110]
      else if c = 13 then [92, 114]
      else if c = 9 then [92, 116]
      else if c = 8 then [92, 98]
      else if c = 12 then [92, 102]
      else if c < 32 then [92, 117, 48, 48, hex_digit (c div 16), hex_digit (c mod 16)]
      else [c])"

definition json_string :: "pystr \<Rightarrow> pystr" where
  "json_string s = [34] @ concat (map escape_char s) @ [34]"

text \<open>
  With \<^verbatim>\<open>indent=4\<close> every item of a list and every member of a dictionary starts
  on a line of its own, after four blanks for each level of nesting; items are
  separated by a comma at the end of the line, a key and its value by a colon and a
  blank; the closing bracket stands on a line of its own at the level of the opening
  one. An empty list is \<^verbatim>\<open>[]\<close> and an empty dictionary \<^verbatim>\<open>{}\<close>. The members of a
  dictionary are written in the order of its keys.
\<close>

definition newline_indent :: "nat \<Rightarrow> pystr" where
  "newline_indent level = 10 # replicate (4 * level) 32"

fun join :: "pystr \<Rightarrow> pystr list \<Rightarrow> pystr" where
  "join sep [] = []"
| "join sep [x] = x"
| "join sep (x # y # ys) = x @ sep @ join sep (y # ys)"

definition json_list :: "nat \<Rightarrow> pystr list \<Rightarrow> pystr" where
  "json_list level xs =
     (if xs = [] then [91, 93]
      else [91] @ newline_indent (level + 1)
           @ join (44 # newline_indent (level + 1)) (map json_string xs)
           @ newline_indent level @ [93])"

definition json_object :: "nat \<Rightarrow> (pystr \<times> pystr) list \<Rightarrow> pystr" where
  "json_object level members =
     (if members = [] then [123, 125]
      else [123] @ newline_indent (level + 1)
           @ join (44 # newline_indent (level + 1))
               (map (\<lambda>(k, v). json_string k @ [58, 32] @ v) members)
           @ newline_indent level @ [125])"

definition json_dumps :: "(pystr \<times> club_data) list \<Rightarrow> pystr" where
  "json_dumps d =
     json_object 0
       (map (\<lambda>(club, r). (club, json_object 1 (map (\<lambda>(k, xs). (k, json_list 2 xs)) r))) d)"

section \<open>The files\<close>

text \<open>
  The state the script acts on: the files by name, each a sequence of bytes, the names
  that cannot be opened for writing, and the lines printed. An error of the script is
  an exception that nothing catches.
\<close>

datatype py_error = FileNotFoundError | UnicodeDecodeError | PermissionError

record world =
  files :: "string \<Rightarrow> nat list option"
  read_only :: "string \<Rightarrow> bool"
  stdout :: "pystr list"

text \<open>
  Decoding of UTF-8 as \<^verbatim>\<open>open(..., 'r', encoding='utf-8')\<close> does it, one byte at a
  time: the state holds the number of continuation bytes still expected, the bits read
  so far and the least code point the sequence may encode. Over-long sequences,
  surrogates and code points beyond \<^verbatim>\<open>U+10FFFF\<close> are errors, as is a sequence cut
  short.
\<close>

definition utf8_step :: "nat \<times> nat \<times> nat \<Rightarrow> nat \<Rightarrow> ((nat \<times> nat \<times> nat) \<times> nat option) option" where
  "utf8_step st b =
     (case st of (need, acc, lo) \<Rightarrow>
        if need = 0 then
          (if b < 128 then Some ((0, 0, 0), Some b)
           else if 194 \<le> b \<and> b < 224 then Some ((1, b - 192, 128), None)
           else if 224 \<le> b \<and> b < 240 then Some ((2, b - 224, 2048), None)
           else if 240 \<le> b \<and> b < 245 then Some ((3, b - 240, 65536), None)
           else None)
        else if 128 \<le> b \<and> b < 192 then
          (if need = 1 then
             (if lo \<le> acc * 64 + (b - 128) \<and> acc * 64 + (b - 128) < 1114112
                 \<and> (acc * 64 + (b - 128) < 55296 \<or> 57343 < acc * 64 + (b - 128))
              then Some ((0, 0, 0), Some (acc * 64 + (b - 128)))
              else None)
           else Some ((need - 1, acc * 64 + (b - 128), lo), None))
        else None)"

fun utf8_run :: "nat \<times> nat \<times> nat \<Rightarrow> nat list \<Rightarrow> pystr option" where
  "utf8_run st [] = (if fst st = 0 then Some [] else None)"
| "utf8_run st (b # bs) =
     (case utf8_step st b of
        None \<Rightarrow> None
      | Some (st', None) \<Rightarrow> utf8_run st' bs
      | Some (st', Some c) \<Rightarrow> map_option (Cons c) (utf8_run st' bs))"

definition utf8_decode :: "nat list \<Rightarrow> pystr option" where
  "utf8_decode bytes = utf8_run (0, 0, 0) bytes"

text \<open>
  Encoding to UTF-8. The text written holds only characters of the text read and ASCII
  characters, none of them a surrogate, so that the encoding does not fail.
\<close>

definition utf8_encode_char :: "nat \<Rightarrow> nat list" where
  "utf8_encode_char c =
     (if c < 128 then [c]
      else if c < 2048 then [192 + c div 64, 128 + c mod 64]
      else if c < 65536 then [224 + c div 4096, 128 + (c div 64) mod 64, 128 + c mod 64]
      else [240 + c div 262144, 128 + (c div 4096) mod 64, 128 + (c div 64) mod 64,
            128 + c mod 64])"

definition utf8_encode :: "pystr \<Rightarrow> nat list" where
  "utf8_encode s = concat (map utf8_encode_char s)"

text \<open>
  A file opened for reading in text mode translates \<^verbatim>\<open>\r\n\<close> and \<^verbatim>\<open>\r\<close> to
  \<^verbatim>\<open>\n\<close>.
\<close>

fun universal_newlines :: "bool \<Rightarrow> pystr \<Rightarrow> pystr" where
  "universal_newlines after_cr [] = []"
| "universal_newlines after_cr (c # cs) =
     (if c = 13 then 10 # universal_newlines True cs
      else if c = 10 \<and> after_cr then universal_newlines False cs
      else c # universal_newlines False cs)"

text \<open>
  \<^verbatim>\<open>with open(name, 'r', encoding='utf-8') as f: content = f.read()\<close>, and
  \<^verbatim>\<open>with open(name, 'w', encoding='utf-8') as f:\<close> followed by the writing of a text.
\<close>

definition read_text :: "world \<Rightarrow> string \<Rightarrow> py_error + pystr" where
  "read_text w name =
     (case files w name of
        None \<Rightarrow> Inl FileNotFoundError
      | Some bytes \<Rightarrow>
          (case utf8_decode bytes of
             None \<Rightarrow> Inl UnicodeDecodeError
           | Some txt \<Rightarrow> Inr (universal_newlines False txt)))"

definition write_text :: "world \<Rightarrow> string \<Rightarrow> pystr \<Rightarrow> py_error + world" where
  "write_text w name txt =
     (if read_only w name then Inl PermissionError
      else Inr (w\<lparr>files := (files w)(name \<mapsto> utf8_encode txt)\<rparr>))"

text \<open>
  The script: it reads the input file, builds \<^verbatim>\<open>set_piece_data\<close>, and only then opens
  the output file, writes the JSON text and prints its message. The result is the
  error raised, if any, and the state left.
\<close>

definition extract_set_piece_data :: "world \<Rightarrow> (py_error + unit) \<times> world" where
  "extract_set_piece_data w =
     (case read_text w ''fpl_set_piece_takers.txt'' of
        Inl e \<Rightarrow> (Inl e, w)
      | Inr content \<Rightarrow>
          (case write_text w ''set_piece_takers_structured.json''
                  (json_dumps (set_piece_data content)) of
             Inl e \<Rightarrow> (Inl e, w)
           | Inr w' \<Rightarrow>
               (Inr (),
                w'\<lparr>stdout := stdout w' @
                  [str ''Structured set piece data extracted and saved to set_piece_takers_structured.json'']\<rparr>)))"

section \<open>Inputs of the examples\<close>

definition arsenal_section :: pystr where
  "arsenal_section = str ''Arsenal'' @ [10] @ str ''Penalties'' @ [10] @ str ''Saka'' @ [10]
     @ str ''Direct free-kicks'' @ [10] @ str ''Trossard'' @ [10]
     @ str ''Corners & indirect free-kicks'' @ [10] @ str ''Saka'' @ [10]
     @ [216] @ str ''degaard'' @ [10, 10]"

definition chelsea_section :: pystr where
  "chelsea_section = str ''Chelsea'' @ [10] @ str ''Penalties'' @ [10] @ str ''Palmer'' @ [10]
     @ str ''Direct free-kicks'' @ [10] @ str ''James'' @ [10]
     @ str ''Corners & indirect free-kicks'' @ [10] @ str ''Palmer'' @ [10]
     @ str ''James'' @ [10, 10]"

definition aston_villa_section :: pystr where
  "aston_villa_section = str ''Aston Villa'' @ [10] @ str ''Penalties'' @ [10]
     @ str ''Watkins'' @ [10]
     @ str ''Direct free-kicks'' @ [10] @ str ''Digne'' @ [10]
     @ str ''Corners & indirect free-kicks'' @ [10] @ str ''Digne'' @ [10]
     @ str ''McGinn'' @ [10, 10]"

definition arsenal_expected :: club_data where
  "arsenal_expected =
     [(str ''penalties'', [str ''Saka'']),
      (str ''direct_free_kicks'', [str ''Trossard'']),
      (str ''corners_indirect_free_kicks'', [str ''Saka'', 216 # str ''degaard'']),
      (str ''notes'', [])]"

definition latch_lines :: "pystr list" where
  "latch_lines =
     [str ''Saka'', 216 # str ''degaard'',
      str ''Set pieces depend on the opponent and situation'', str ''Rice'']"

definition latch_section :: pystr where
  "latch_section = str ''Arsenal'' @ [10] @ str ''Penalties'' @ [10] @ str ''Saka'' @ [10]
     @ str ''Direct free-kicks'' @ [10] @ str ''Trossard'' @ [10]
     @ str ''Corners & indirect free-kicks'' @ [10] @ str ''Saka'' @ [10]
     @ [216] @ str ''degaard'' @ [10]
     @ str ''Set pieces depend on the opponent and situation'' @ [10]
     @ str ''Rice'' @ [10]"

definition aston_villa_expected :: club_data where
  "aston_villa_expected =
     [(str ''penalties'', [str ''Watkins'']),
      (str ''direct_free_kicks'', [str ''Digne'']),
      (str ''corners_indirect_free_kicks'', [str ''Digne'', str ''McGinn'']),
      (str ''notes'', [])]"

text \<open>
  The block of the corners in the words of the specification, for comparison with the
  block the pattern captures: the lines of the text that follows the anchor line, up
  to the first blank line (a line of white space only) or to the end.
\<close>

definition spec_lines_to_first_blank :: "pystr \<Rightarrow> pystr list" where
  "spec_lines_to_first_blank txt = takeWhile (\<lambda>l. strip l \<noteq> []) (split_on 10 txt)"

definition blank_line_head :: pystr where
  "blank_line_head = str ''Arsenal'' @ [10] @ str ''Penalties'' @ [10] @ str ''Saka'' @ [10]
     @ str ''Direct free-kicks'' @ [10] @ str ''Trossard'' @ [10]
     @ str ''Corners & indirect free-kicks'' @ [10]"

definition blank_line_tail :: pystr where
  "blank_line_tail = str ''Saka'' @ [10, 32, 10] @ str ''Rice'' @ [10]"

definition empty_line_tail :: pystr where
  "empty_line_tail = str ''Saka'' @ [10, 10] @ str ''Rice'' @ [10]"

definition midline_section :: pystr where
  "midline_section = str ''Arsenal'' @ [10] @ str ''Penalties'' @ [10]
     @ str ''Saka Direct free-kicks'' @ [10] @ str ''Trossard'' @ [10]
     @ str ''Corners & indirect free-kicks'' @ [10] @ str ''Rice'' @ [10]"

definition no_free_kicks_section :: pystr where
  "no_free_kicks_section = str ''Arsenal'' @ [10] @ str ''Penalties'' @ [10]
     @ str ''Saka'' @ [10]
     @ str ''Corners & indirect free-kicks'' @ [10] @ str ''Rice'' @ [10]"

definition unterminated_section :: pystr where
  "unterminated_section = str ''Arsenal'' @ [10] @ str ''Penalties'' @ [10] @ str ''Saka'' @ [10]
     @ str ''Direct free-kicks'' @ [10] @ str ''Trossard'' @ [10]
     @ str ''Corners & indirect free-kicks'' @ [10] @ str ''Saka'' @ [10]
     @ [216] @ str ''degaard''"

definition world_no_input :: world where
  "world_no_input =
     \<lparr>files = (\<lambda>name. None)(''set_piece_takers_structured.json'' \<mapsto> [111, 108, 100]),
      read_only = (\<lambda>name. False), stdout = []\<rparr>"

definition world_bad_bytes :: world where
  "world_bad_bytes =
     \<lparr>files = (\<lambda>name. None)(''fpl_set_piece_takers.txt'' \<mapsto> [83, 97, 255, 107, 97],
                              ''set_piece_takers_structured.json'' \<mapsto> [111, 108, 100]),
      read_only = (\<lambda>name. False), stdout = []\<rparr>"

definition world_no_club :: world where
  "world_no_club =
     \<lparr>files = (\<lambda>name. None)(''fpl_set_piece_takers.txt'' \<mapsto> [195, 152, 10],
                              ''set_piece_takers_structured.json'' \<mapsto> [111, 108, 100]),
      read_only = (\<lambda>name. False), stdout = []\<rparr>"

section \<open>Lemmas\<close>

subsection \<open>The matcher\<close>

lemma rmatch_suffix: "t \<in> set (rmatch r s) \<Longrightarrow> suffix t s"
proof (induction r s arbitrary: t rule: rmatch.induct)
  case (1 l s)
  then show ?case by (auto simp: suffix_drop split: if_splits)
next
  case (2 s)
  then show ?case by (auto simp: suffix_def split: list.splits if_splits)
next
  case (3 s)
  then show ?case by (auto simp: suffix_def split: list.splits if_splits)
next
  case (4 s)
  then show ?case by (auto split: if_splits)
next
  case (5 a b s)
  then show ?case by (auto intro: suffix_order.trans)
next
  case (6 a b s)
  then show ?case by auto
next
  case (7 a)
  then show ?case by simp
next
  case (8 a c cs)
  then show ?case by (auto split: if_splits intro: suffix_order.trans)
next
  case (9 a)
  then show ?case by simp
next
  case (10 a c cs)
  then show ?case by (auto split: if_splits intro: suffix_order.trans)
qed

lemma concat_singletons: "concat (map (\<lambda>t. [t]) xs) = xs"
  by (induction xs) auto

lemma concat_empties: "concat (map (\<lambda>t. []) xs) = []"
  by (induction xs) auto

lemma rmatch_StarG:
  "rmatch (StarG a) s =
     concat (map (\<lambda>t. if length t < length s then rmatch (StarG a) t else []) (rmatch a s)) @ [s]"
  by (cases s) (simp_all add: concat_empties)

lemma rmatch_PlusL:
  "rmatch (PlusL a) s =
     concat (map (\<lambda>t. t # (if length t < length s then rmatch (PlusL a) t else []))
                 (rmatch a s))"
  by (cases s) (simp_all add: concat_singletons)

lemma star_space_Cons:
  "rmatch (StarG Space) (c # cs) =
     (if is_space c then rmatch (StarG Space) cs @ [c # cs] else [c # cs])"
  by simp

lemma star_dot_Cons:
  "rmatch (StarG Dot) (c # cs) =
     (if c \<noteq> 10 then rmatch (StarG Dot) cs @ [c # cs] else [c # cs])"
  by simp

lemma is_space_10: "is_space 10"
  by (simp add: is_space_def)

lemma rmatch_ws_nl: "rmatch ws_nl s = ws_nl_ends s"
proof (induction s)
  case Nil
  then show ?case by (simp add: ws_nl_def)
next
  case (Cons c cs)
  have "rmatch ws_nl (c # cs) = concat (map (rmatch (Lit [10])) (rmatch (StarG Space) (c # cs)))"
    by (simp add: ws_nl_def)
  also have "\<dots> = (if is_space c then rmatch ws_nl cs @ rmatch (Lit [10]) (c # cs)
                     else rmatch (Lit [10]) (c # cs))"
    by (simp only: star_space_Cons) (simp add: ws_nl_def)
  also have "\<dots> = ws_nl_ends (c # cs)"
    using Cons is_space_10 by auto
  finally show ?case .
qed

lemma line_Nil: "rmatch line_re [] = []"
  by (simp add: line_re_def)

lemma line_Cons: "rmatch line_re (c # cs) = (if c = 10 then [cs] else rmatch line_re cs)"
proof -
  have "rmatch line_re (c # cs) = concat (map (rmatch (Lit [10])) (rmatch (StarG Dot) (c # cs)))"
    by (simp add: line_re_def)
  also have "\<dots> = (if c = 10 then [cs] else rmatch line_re cs)"
    by (simp only: star_dot_Cons) (simp add: line_re_def)
  finally show ?thesis .
qed

lemma line_shorter: "t \<in> set (rmatch line_re s) \<Longrightarrow> length t < length s"
  by (induction s) (auto simp: line_Nil line_Cons split: if_splits)

lemma line_ends_step:
  "line_ends s = concat (map (\<lambda>t. t # line_ends t) (rmatch line_re s))"
  by (induction s) (auto simp: line_Nil line_Cons)

lemma rmatch_lines_lazy: "rmatch lines_lazy s = line_ends s"
proof (induction "length s" arbitrary: s rule: less_induct)
  case less
  have "rmatch lines_lazy s =
    concat (map (\<lambda>t. t # (if length t < length s then rmatch lines_lazy t else []))
                (rmatch line_re s))"
    unfolding lines_lazy_def by (rule rmatch_PlusL)
  also have "\<dots> = concat (map (\<lambda>t. t # line_ends t) (rmatch line_re s))"
    using less line_shorter by (intro arg_cong[where f=concat] map_cong) auto
  finally show ?case by (simp add: line_ends_step[symmetric])
qed

lemma ws_nl_ends_iff:
  "t \<in> set (ws_nl_ends s) \<longleftrightarrow> (\<exists>ws. (\<forall>c \<in> set ws. is_space c) \<and> s = ws @ 10 # t)"
proof (induction s)
  case Nil
  then show ?case by simp
next
  case (Cons c cs)
  show ?case
  proof
    assume "t \<in> set (ws_nl_ends (c # cs))"
    then have sp: "is_space c" and "t \<in> set (ws_nl_ends cs) \<or> (c = 10 \<and> t = cs)"
      by (auto split: if_splits)
    then show "\<exists>ws. (\<forall>c \<in> set ws. is_space c) \<and> c # cs = ws @ 10 # t"
    proof (elim disjE conjE)
      assume "t \<in> set (ws_nl_ends cs)"
      then obtain ws where "\<forall>c \<in> set ws. is_space c" "cs = ws @ 10 # t"
        using Cons by auto
      then have "(\<forall>d \<in> set (c # ws). is_space d) \<and> c # cs = (c # ws) @ 10 # t"
        using sp by simp
      then show ?thesis by blast
    next
      assume "c = 10" "t = cs"
      then have "(\<forall>d \<in> set []. is_space d) \<and> c # cs = [] @ 10 # t" by simp
      then show ?thesis by blast
    qed
  next
    assume "\<exists>ws. (\<forall>c \<in> set ws. is_space c) \<and> c # cs = ws @ 10 # t"
    then obtain ws where ws: "\<forall>c \<in> set ws. is_space c" "c # cs = ws @ 10 # t" by blast
    show "t \<in> set (ws_nl_ends (c # cs))"
    proof (cases ws)
      case Nil
      then show ?thesis using ws is_space_10 by simp
    next
      case (Cons d ds)
      then have "is_space c" "cs = ds @ 10 # t" "\<forall>c \<in> set ds. is_space c"
        using ws by auto
      then show ?thesis using Cons.IH by auto
    qed
  qed
qed

lemma line_ends_iff:
  "t \<in> set (line_ends s) \<longleftrightarrow> (\<exists>g. s = g @ 10 # t)"
proof (induction s)
  case Nil
  then show ?case by simp
next
  case (Cons c cs)
  show ?case
  proof
    assume "t \<in> set (line_ends (c # cs))"
    then have "t \<in> set (line_ends cs) \<or> (c = 10 \<and> t = cs)"
      by (auto split: if_splits)
    then show "\<exists>g. c # cs = g @ 10 # t"
    proof (elim disjE conjE)
      assume "t \<in> set (line_ends cs)"
      then obtain g where "cs = g @ 10 # t" using Cons by auto
      then have "c # cs = (c # g) @ 10 # t" by simp
      then show ?thesis by blast
    next
      assume "c = 10" "t = cs"
      then have "c # cs = [] @ 10 # t" by simp
      then show ?thesis by blast
    qed
  next
    assume "\<exists>g. c # cs = g @ 10 # t"
    then obtain g where g: "c # cs = g @ 10 # t" by blast
    show "t \<in> set (line_ends (c # cs))"
    proof (cases g)
      case Nil
      then show ?thesis using g by simp
    next
      case (Cons d ds)
      then have "cs = ds @ 10 # t" using g by simp
      then show ?thesis using Cons.IH by auto
    qed
  qed
qed

subsection \<open>Searching\<close>

lemma search_from_None:
  "search_from r p s = None \<longleftrightarrow> (\<forall>k \<le> length s. rmatch r (drop k s) = [])"
proof (induction s arbitrary: p)
  case Nil
  then show ?case by simp
next
  case (Cons c t)
  have "(\<forall>k \<le> length (c # t). rmatch r (drop k (c # t)) = []) \<longleftrightarrow>
        rmatch r (c # t) = [] \<and> (\<forall>k \<le> length t. rmatch r (drop k t) = [])"
  proof
    assume a: "\<forall>k \<le> length (c # t). rmatch r (drop k (c # t)) = []"
    have "rmatch r (drop 0 (c # t)) = []" using a by blast
    moreover have "rmatch r (drop k t) = []" if "k \<le> length t" for k
      using a[rule_format, of "Suc k"] that by simp
    ultimately show "rmatch r (c # t) = [] \<and> (\<forall>k \<le> length t. rmatch r (drop k t) = [])"
      by simp
  next
    assume a: "rmatch r (c # t) = [] \<and> (\<forall>k \<le> length t. rmatch r (drop k t) = [])"
    show "\<forall>k \<le> length (c # t). rmatch r (drop k (c # t)) = []"
    proof (intro allI impI)
      fix k assume "k \<le> length (c # t)"
      then show "rmatch r (drop k (c # t)) = []"
        using a by (cases k) auto
    qed
  qed
  then show ?case using Cons by simp
qed

lemma search_from_Some:
  "search_from r p s = Some q \<longleftrightarrow>
     (p \<le> q \<and> q - p \<le> length s \<and> rmatch r (drop (q - p) s) \<noteq> [] \<and>
      (\<forall>k < q - p. rmatch r (drop k s) = []))"
proof (induction s arbitrary: p)
  case Nil
  then show ?case by auto
next
  case (Cons c t)
  show ?case
  proof (cases "rmatch r (c # t) = []")
    case False
    have "(p \<le> q \<and> q - p \<le> length (c # t) \<and> rmatch r (drop (q - p) (c # t)) \<noteq> [] \<and>
           (\<forall>k < q - p. rmatch r (drop k (c # t)) = [])) \<longleftrightarrow> q = p"
    proof
      assume a: "p \<le> q \<and> q - p \<le> length (c # t) \<and> rmatch r (drop (q - p) (c # t)) \<noteq> [] \<and>
           (\<forall>k < q - p. rmatch r (drop k (c # t)) = [])"
      show "q = p"
      proof (rule ccontr)
        assume "q \<noteq> p"
        then have "0 < q - p" using a by simp
        then have "rmatch r (drop 0 (c # t)) = []" using a by blast
        then show False using False by simp
      qed
    next
      assume "q = p"
      then show "p \<le> q \<and> q - p \<le> length (c # t) \<and> rmatch r (drop (q - p) (c # t)) \<noteq> [] \<and>
           (\<forall>k < q - p. rmatch r (drop k (c # t)) = [])"
        using False by simp
    qed
    then show ?thesis using False by auto
  next
    case True
    have "(p \<le> q \<and> q - p \<le> length (c # t) \<and> rmatch r (drop (q - p) (c # t)) \<noteq> [] \<and>
           (\<forall>k < q - p. rmatch r (drop k (c # t)) = [])) \<longleftrightarrow>
          (p + 1 \<le> q \<and> q - (p + 1) \<le> length t \<and> rmatch r (drop (q - (p + 1)) t) \<noteq> [] \<and>
           (\<forall>k < q - (p + 1). rmatch r (drop k t) = []))" (is "?L \<longleftrightarrow> ?R")
    proof
      assume l: ?L
      have "q \<noteq> p" using l True by auto
      then obtain d where d: "q - p = Suc d" using l by (cases "q - p") auto
      have d': "q - (p + 1) = d" using d by simp
      have "rmatch r (drop k t) = []" if "k < d" for k
      proof -
        have "Suc k < q - p" using that d by simp
        then have "rmatch r (drop (Suc k) (c # t)) = []" using l by blast
        then show ?thesis by simp
      qed
      moreover have "rmatch r (drop d t) \<noteq> []" using l d by simp
      moreover have "p + 1 \<le> q" "d \<le> length t" using l d by auto
      ultimately show ?R unfolding d' by blast
    next
      assume rr: ?R
      then obtain d where d: "q - p = Suc d" "q - (p + 1) = d" by (cases "q - p") auto
      have "rmatch r (drop k (c # t)) = []" if "k < Suc d" for k
        using rr d True that by (cases k) auto
      moreover have "rmatch r (drop (Suc d) (c # t)) \<noteq> []" using rr d by simp
      moreover have "p \<le> q" "Suc d \<le> length (c # t)" using rr d by auto
      ultimately show ?L unfolding d by blast
    qed
    then show ?thesis using True Cons[of "p + 1"] by simp
  qed
qed

lemma re_search_start_None:
  "re_search_start r s = None \<longleftrightarrow> (\<forall>k \<le> length s. rmatch r (drop k s) = [])"
  by (simp add: re_search_start_def search_from_None)

lemma re_search_start_Some:
  "re_search_start r s = Some q \<longleftrightarrow>
     (q \<le> length s \<and> rmatch r (drop q s) \<noteq> [] \<and> (\<forall>k < q. rmatch r (drop k s) = []))"
  by (simp add: re_search_start_def search_from_Some)

lemma seq_lit:
  "rmatch (Seq (Lit l) b) s = (if prefix l s then rmatch b (drop (length l) s) else [])"
  by simp

lemma seq_ws_nl: "rmatch (Seq ws_nl b) s = concat (map (rmatch b) (ws_nl_ends s))"
  by (simp add: rmatch_ws_nl)

lemma concat_lit_nonempty:
  "concat (map (rmatch (Lit l)) xs) \<noteq> [] \<longleftrightarrow> (\<exists>t \<in> set xs. prefix l t)"
  by (induction xs) auto

lemma club_pattern_eq:
  "rmatch (club_pattern club) s =
     (if prefix club s
      then concat (map (rmatch (Lit (str ''Penalties''))) (ws_nl_ends (drop (length club) s)))
      else [])"
  unfolding club_pattern_def by (simp only: seq_lit seq_ws_nl)

lemma club_pattern_nonempty:
  "rmatch (club_pattern club) s \<noteq> [] \<longleftrightarrow>
     prefix club s \<and> (\<exists>t \<in> set (ws_nl_ends (drop (length club) s)). prefix (str ''Penalties'') t)"
  unfolding club_pattern_eq using concat_lit_nonempty by simp

lemma rmatch_club_pattern:
  "rmatch (club_pattern club) s \<noteq> [] \<longleftrightarrow>
     (\<exists>ws. (\<forall>c \<in> set ws. is_space c) \<and> prefix (club @ ws @ [10] @ str ''Penalties'') s)"
proof
  assume "rmatch (club_pattern club) s \<noteq> []"
  then have p: "prefix club s"
    and "\<exists>t \<in> set (ws_nl_ends (drop (length club) s)). prefix (str ''Penalties'') t"
    by (simp_all add: club_pattern_nonempty)
  then obtain t where t: "t \<in> set (ws_nl_ends (drop (length club) s))"
    "prefix (str ''Penalties'') t" by blast
  then obtain ws where ws: "\<forall>c \<in> set ws. is_space c"
    "drop (length club) s = ws @ 10 # t"
    unfolding ws_nl_ends_iff by blast
  obtain r where r: "t = str ''Penalties'' @ r" using t(2) by (auto simp: prefix_def)
  have "s = club @ drop (length club) s"
    using p by (auto simp: prefix_def)
  then have "s = (club @ ws @ [10] @ str ''Penalties'') @ r"
    using ws(2) r by simp
  then have "prefix (club @ ws @ [10] @ str ''Penalties'') s"
    using prefixI by blast
  then show "\<exists>ws. (\<forall>c \<in> set ws. is_space c) \<and> prefix (club @ ws @ [10] @ str ''Penalties'') s"
    using ws(1) by blast
next
  assume "\<exists>ws. (\<forall>c \<in> set ws. is_space c) \<and> prefix (club @ ws @ [10] @ str ''Penalties'') s"
  then obtain ws r where ws: "\<forall>c \<in> set ws. is_space c"
    and s: "s = club @ ws @ [10] @ str ''Penalties'' @ r"
    by (auto simp: prefix_def)
  have "drop (length club) s = ws @ 10 # (str ''Penalties'' @ r)"
    using s by simp
  then have "str ''Penalties'' @ r \<in> set (ws_nl_ends (drop (length club) s))"
    unfolding ws_nl_ends_iff using ws by blast
  moreover have "prefix club s" using s by simp
  moreover have "prefix (str ''Penalties'') (str ''Penalties'' @ r)" by simp
  ultimately show "rmatch (club_pattern club) s \<noteq> []"
    unfolding club_pattern_nonempty by blast
qed

lemma anchor_at_rmatch:
  "anchor_at club content p \<longleftrightarrow> rmatch (club_pattern club) (drop p content) \<noteq> []"
  by (simp add: anchor_at_def rmatch_club_pattern)

subsection \<open>The loop over the clubs\<close>

lemma length_clubs: "length clubs = 20"
  by (simp add: clubs_def)

lemma distinct_clubs: "distinct clubs"
  by (simp add: clubs_def str_def)

lemma update_new_key: "k \<notin> fst ` set al \<Longrightarrow> AList.update k v al = al @ [(k, v)]"
  by (induction al) auto

lemma fold_process_Suc:
  "fold (process_club content) [0..<Suc n] [] =
     process_club content n (fold (process_club content) [0..<n] [])"
  by simp

lemma keys_fold_process:
  "n \<le> length clubs \<Longrightarrow>
   map fst (fold (process_club content) [0..<n] []) =
     filter (\<lambda>c. re_search_start (club_pattern c) content \<noteq> None) (take n clubs)"
proof (induction n)
  case 0
  then show ?case by simp
next
  case (Suc n)
  let ?D = "fold (process_club content) [0..<n] []"
  have n: "n < length clubs" using Suc.prems by simp
  have ih: "map fst ?D =
      filter (\<lambda>c. re_search_start (club_pattern c) content \<noteq> None) (take n clubs)"
    using Suc by simp
  have tk: "take (Suc n) clubs = take n clubs @ [clubs ! n]"
    using n by (simp add: take_Suc_conv_app_nth)
  have "clubs ! n \<notin> set (take n clubs)"
    using distinct_clubs n tk by (metis distinct_take not_distinct_conv_prefix)
  then have new: "clubs ! n \<notin> fst ` set ?D"
    using ih by (metis (no_types, lifting) filter_is_subset set_map subsetD)
  show ?case
  proof (cases "re_search_start (club_pattern (clubs ! n)) content")
    case None
    then show ?thesis
      unfolding fold_process_Suc tk using ih by (simp add: process_club_def)
  next
    case (Some sp)
    then show ?thesis
      unfolding fold_process_Suc tk using ih new
      by (simp add: process_club_def update_new_key)
  qed
qed

lemma keys_set_piece_data:
  "map fst (set_piece_data content) =
     filter (\<lambda>c. re_search_start (club_pattern c) content \<noteq> None) clubs"
  unfolding set_piece_data_def using keys_fold_process[of "length clubs" content] by simp

lemma map_of_process_club:
  "map_of (process_club content n d) k =
     (case re_search_start (club_pattern (clubs ! n)) content of
        None \<Rightarrow> map_of d k
      | Some sp \<Rightarrow> if k = clubs ! n then Some (club_record (club_section content n sp))
                  else map_of d k)"
  by (simp add: process_club_def update_conv' split: option.splits)

lemma lookup_fold_process:
  "n \<le> length clubs \<Longrightarrow> i < n \<Longrightarrow>
   map_of (fold (process_club content) [0..<n] []) (clubs ! i) =
     (case re_search_start (club_pattern (clubs ! i)) content of
        None \<Rightarrow> None
      | Some sp \<Rightarrow> Some (club_record (club_section content i sp)))"
proof (induction n)
  case 0
  then show ?case by simp
next
  case (Suc n)
  let ?D = "fold (process_club content) [0..<n] []"
  have n: "n < length clubs" using Suc.prems by simp
  show ?case
  proof (cases "i = n")
    case True
    have "clubs ! n \<notin> set (take n clubs)"
      using distinct_clubs n
      by (metis distinct_take not_distinct_conv_prefix take_Suc_conv_app_nth)
    then have "clubs ! n \<notin> set (map fst ?D)"
      using keys_fold_process[of n content] n by simp
    then have "map_of ?D (clubs ! n) = None"
      by (simp add: map_of_eq_None_iff)
    then show ?thesis
      unfolding fold_process_Suc map_of_process_club using True
      by (simp split: option.splits)
  next
    case False
    then have i: "i < n" using Suc.prems by simp
    then have "clubs ! n \<noteq> clubs ! i"
      using distinct_clubs n by (simp add: nth_eq_iff_index_eq)
    moreover have "map_of ?D (clubs ! i) =
      (case re_search_start (club_pattern (clubs ! i)) content of
        None \<Rightarrow> None
      | Some sp \<Rightarrow> Some (club_record (club_section content i sp)))"
      using Suc.IH i n by simp
    ultimately show ?thesis
      unfolding fold_process_Suc map_of_process_club
      by (simp split: option.splits)
  qed
qed

lemma lookup_set_piece_data:
  "i < length clubs \<Longrightarrow>
   map_of (set_piece_data content) (clubs ! i) =
     (case re_search_start (club_pattern (clubs ! i)) content of
        None \<Rightarrow> None
      | Some sp \<Rightarrow> Some (club_record (club_section content i sp)))"
  unfolding set_piece_data_def using lookup_fold_process[of "length clubs" i content] by simp

subsection \<open>The first match of a pattern with a group\<close>

lemma hd_concat_map:
  "concat (map F xs) = y # ys \<Longrightarrow>
   \<exists>us x vs zs. xs = us @ x # vs \<and> (\<forall>u \<in> set us. F u = []) \<and> F x = y # zs"
proof (induction xs)
  case Nil
  then show ?case by simp
next
  case (Cons x xs)
  show ?case
  proof (cases "F x")
    case Nil
    then have "concat (map F xs) = y # ys" using Cons.prems by simp
    then obtain us x' vs zs where "xs = us @ x' # vs" "\<forall>u \<in> set us. F u = []" "F x' = y # zs"
      using Cons.IH by blast
    then have "x # xs = (x # us) @ x' # vs \<and> (\<forall>u \<in> set (x # us). F u = []) \<and> F x' = y # zs"
      using Nil by simp
    then show ?thesis by blast
  next
    case (Cons z zs)
    then have "x # xs = [] @ x # xs \<and> (\<forall>u \<in> set []. F u = []) \<and> F x = y # zs"
      using Cons.prems by simp
    then show ?thesis by blast
  qed
qed

lemma re_search_group_Some:
  "re_search_group pre grp post s = Some g \<Longrightarrow>
   \<exists>k \<le> length s. match_group pre grp post (drop k s) = Some g"
proof (induction s)
  case Nil
  then show ?case by simp
next
  case (Cons c t)
  show ?case
  proof (cases "match_group pre grp post (c # t)")
    case None
    then have "re_search_group pre grp post t = Some g" using Cons.prems by simp
    then obtain k where "k \<le> length t" "match_group pre grp post (drop k t) = Some g"
      using Cons.IH by blast
    then have "Suc k \<le> length (c # t) \<and> match_group pre grp post (drop (Suc k) (c # t)) = Some g"
      by simp
    then show ?thesis by blast
  next
    case (Some g')
    then have "0 \<le> length (c # t) \<and> match_group pre grp post (drop 0 (c # t)) = Some g"
      using Cons.prems by simp
    then show ?thesis by blast
  qed
qed

lemma re_search_group_None:
  "(\<And>k. k \<le> length s \<Longrightarrow> match_group pre grp post (drop k s) = None) \<Longrightarrow>
   re_search_group pre grp post s = None"
proof (induction s)
  case Nil
  then show ?case using Nil[of 0] by simp
next
  case (Cons c t)
  have "match_group pre grp post (c # t) = None" using Cons.prems[of 0] by simp
  moreover have "re_search_group pre grp post t = None"
  proof (rule Cons.IH)
    fix k assume "k \<le> length t"
    then show "match_group pre grp post (drop k t) = None"
      using Cons.prems[of "Suc k"] by simp
  qed
  ultimately show ?case by simp
qed

lemma line_ends_split:
  "line_ends s = us @ t # vs \<Longrightarrow>
   \<exists>g. s = g @ t \<and> g \<noteq> [] \<and> last g = 10 \<and>
       (\<forall>g' r. g = g' @ r \<and> g' \<noteq> [] \<and> last g' = 10 \<and> r \<noteq> [] \<longrightarrow> r @ t \<in> set us)"
proof (induction s arbitrary: us)
  case Nil
  then show ?case by simp
next
  case (Cons c cs)
  show ?case
  proof (cases "c = 10")
    case False
    then have "line_ends cs = us @ t # vs" using Cons.prems by simp
    then obtain g where g: "cs = g @ t" "g \<noteq> []" "last g = 10"
      "\<forall>g' r. g = g' @ r \<and> g' \<noteq> [] \<and> last g' = 10 \<and> r \<noteq> [] \<longrightarrow> r @ t \<in> set us"
      using Cons.IH by blast
    have "r @ t \<in> set us"
      if h: "c # g = g' @ r" "g' \<noteq> []" "last g' = 10" "r \<noteq> []" for g' r
    proof -
      obtain g'' where g'': "g' = c # g''" "g = g'' @ r"
        using h(1,2) by (cases g') auto
      have "g'' \<noteq> []" using g''(1) h(3) False by auto
      then have "last g'' = 10" using g''(1) h(3) by simp
      then show ?thesis using g(4) g''(2) \<open>g'' \<noteq> []\<close> h(4) by blast
    qed
    then have "c # cs = (c # g) @ t \<and> c # g \<noteq> [] \<and> last (c # g) = 10 \<and>
       (\<forall>g' r. c # g = g' @ r \<and> g' \<noteq> [] \<and> last g' = 10 \<and> r \<noteq> [] \<longrightarrow> r @ t \<in> set us)"
      using g by simp
    then show ?thesis by blast
  next
    case True
    then have le: "cs # line_ends cs = us @ t # vs" using Cons.prems by simp
    show ?thesis
    proof (cases us)
      case Nil
      then have "t = cs" using le by simp
      moreover have "\<not> ([c] = g' @ r \<and> g' \<noteq> [] \<and> r \<noteq> [])" for g' r :: pystr
        by (cases g') auto
      ultimately have "c # cs = [c] @ t \<and> [c] \<noteq> [] \<and> last [c] = 10 \<and>
        (\<forall>g' r. [c] = g' @ r \<and> g' \<noteq> [] \<and> last g' = 10 \<and> r \<noteq> [] \<longrightarrow> r @ t \<in> set us)"
        using True by auto
      then show ?thesis by blast
    next
      case (Cons u us')
      then have u: "u = cs" "line_ends cs = us' @ t # vs" using le by auto
      then obtain g where g: "cs = g @ t" "g \<noteq> []" "last g = 10"
        "\<forall>g' r. g = g' @ r \<and> g' \<noteq> [] \<and> last g' = 10 \<and> r \<noteq> [] \<longrightarrow> r @ t \<in> set us'"
        using Cons.IH by blast
      have "r @ t \<in> set us"
        if h: "c # g = g' @ r" "g' \<noteq> []" "last g' = 10" "r \<noteq> []" for g' r
      proof -
        obtain g'' where g'': "g' = c # g''" "g = g'' @ r"
          using h(1,2) by (cases g') auto
        show ?thesis
        proof (cases "g'' = []")
          case True
          then have "r @ t = cs" using g''(2) g(1) by simp
          then show ?thesis using Cons u(1) by simp
        next
          case False
          then have "last g'' = 10" using g''(1) h(3) by simp
          then have "r @ t \<in> set us'" using g(4) g''(2) False h(4) by blast
          then show ?thesis using Cons by simp
        qed
      qed
      then have "c # cs = (c # g) @ t \<and> c # g \<noteq> [] \<and> last (c # g) = 10 \<and>
         (\<forall>g' r. c # g = g' @ r \<and> g' \<noteq> [] \<and> last g' = 10 \<and> r \<noteq> [] \<longrightarrow> r @ t \<in> set us)"
        using g by simp
      then show ?thesis by blast
    qed
  qed
qed

lemma block_match:
  assumes "re_search_group (Seq (Lit A) ws_nl) lines_lazy T sec = Some g"
  shows "\<exists>a ws post. sec = a @ A @ ws @ 10 # g @ post \<and> (\<forall>c \<in> set ws. is_space c) \<and>
           g \<noteq> [] \<and> last g = 10 \<and> rmatch T post \<noteq> [] \<and>
           (\<forall>g' r. g = g' @ r \<and> g' \<noteq> [] \<and> last g' = 10 \<and> r \<noteq> [] \<longrightarrow>
                   rmatch T (r @ post) = [])"
proof -
  obtain k where k: "k \<le> length sec"
    "match_group (Seq (Lit A) ws_nl) lines_lazy T (drop k sec) = Some g"
    using re_search_group_Some[OF assms] by blast
  define s' where "s' = drop k sec"
  define G where "G = (\<lambda>(s1::pystr) s2. map (\<lambda>s3::pystr. take (length s1 - length s2) s1) (rmatch T s2))"
  define F where "F = (\<lambda>s1. concat (map (G s1) (line_ends s1)))"
  have gm: "group_matches (Seq (Lit A) ws_nl) lines_lazy T s' =
      concat (map F (rmatch (Seq (Lit A) ws_nl) s'))"
    unfolding group_matches_def F_def G_def rmatch_lines_lazy ..
  obtain rest where "group_matches (Seq (Lit A) ws_nl) lines_lazy T s' = g # rest"
    using k(2) unfolding s'_def match_group_def by (auto split: list.splits)
  then have "concat (map F (rmatch (Seq (Lit A) ws_nl) s')) = g # rest"
    using gm by simp
  then obtain us1 s1 vs1 zs1 where s1: "rmatch (Seq (Lit A) ws_nl) s' = us1 @ s1 # vs1"
    "F s1 = g # zs1"
    using hd_concat_map[of F] by blast
  have "concat (map (G s1) (line_ends s1)) = g # zs1"
    using s1(2) unfolding F_def .
  then obtain us2 s2 vs2 zs2 where s2: "line_ends s1 = us2 @ s2 # vs2"
    "\<forall>u \<in> set us2. G s1 u = []" "G s1 s2 = g # zs2"
    using hd_concat_map[of "G s1"] by blast
  obtain g0 where g0: "s1 = g0 @ s2" "g0 \<noteq> []" "last g0 = 10"
    "\<forall>g' r. g0 = g' @ r \<and> g' \<noteq> [] \<and> last g' = 10 \<and> r \<noteq> [] \<longrightarrow> r @ s2 \<in> set us2"
    using line_ends_split[OF s2(1)] by blast
  have post: "rmatch T s2 \<noteq> []" and g: "g = take (length s1 - length s2) s1"
    using s2(3) unfolding G_def by auto
  have gg: "g = g0" using g g0(1) by simp
  have fail: "rmatch T u = []" if "u \<in> set us2" for u
    using s2(2) that unfolding G_def by auto
  have "s1 \<in> set (rmatch (Seq (Lit A) ws_nl) s')" using s1(1) by simp
  then have pA: "prefix A s'" and "s1 \<in> set (ws_nl_ends (drop (length A) s'))"
    by (auto simp: seq_lit rmatch_ws_nl split: if_splits)
  then obtain ws where ws: "\<forall>c \<in> set ws. is_space c" "drop (length A) s' = ws @ 10 # s1"
    unfolding ws_nl_ends_iff by blast
  have "s' = A @ drop (length A) s'" using pA by (auto simp: prefix_def)
  then have "s' = A @ ws @ 10 # g @ s2" using ws(2) g0(1) gg by simp
  moreover have "sec = take k sec @ s'" unfolding s'_def by simp
  ultimately have "sec = take k sec @ A @ ws @ 10 # g @ s2" by simp
  moreover have "\<forall>g' r. g = g' @ r \<and> g' \<noteq> [] \<and> last g' = 10 \<and> r \<noteq> [] \<longrightarrow>
                   rmatch T (r @ s2) = []"
    using g0(4) fail gg by blast
  ultimately show ?thesis using ws(1) g0(2,3) gg post by blast
qed

subsection \<open>The record of a club\<close>

lemma keys_init_club_data:
  "map fst init_club_data =
     [str ''penalties'', str ''direct_free_kicks'', str ''corners_indirect_free_kicks'',
      str ''notes'']"
  by (simp add: init_club_data_def)

lemma keys_update_present:
  "k \<in> set (map fst al) \<Longrightarrow> map fst (AList.update k v al) = map fst al"
  by (simp add: update_keys)

lemma keys_club_record:
  "map fst (club_record sec) =
     [str ''penalties'', str ''direct_free_kicks'', str ''corners_indirect_free_kicks'',
      str ''notes'']"
proof -
  let ?K = "[str ''penalties'', str ''direct_free_kicks'',
             str ''corners_indirect_free_kicks'', str ''notes'']"
  define d1 where "d1 = (case penalties_match sec of
                  None \<Rightarrow> init_club_data
                | Some g \<Rightarrow> AList.update (str ''penalties'') (name_list (strip g)) init_club_data)"
  define d2 where "d2 = (case free_kicks_match sec of
                  None \<Rightarrow> d1
                | Some g \<Rightarrow> AList.update (str ''direct_free_kicks'') (name_list (strip g)) d1)"
  have k1: "map fst d1 = ?K"
    unfolding d1_def by (simp add: keys_init_club_data keys_update_present split: option.splits)
  have k2: "map fst d2 = ?K"
    unfolding d2_def using k1 by (simp add: keys_update_present split: option.splits)
  have "club_record sec =
      (case corners_match sec of
            None \<Rightarrow> d2
          | Some g \<Rightarrow>
              (case classify_lines (split_on 10 (strip g)) ([], [], False) of
                 (corner_takers, notes, in_notes) \<Rightarrow>
                   AList.update (str ''notes'') notes
                     (AList.update (str ''corners_indirect_free_kicks'') corner_takers d2)))"
    unfolding club_record_def d1_def d2_def Let_def ..
  then show ?thesis
    using k2 by (simp add: keys_update_present split: option.splits prod.splits)
qed

lemma str_keys_distinct:
  "str ''penalties'' \<noteq> str ''direct_free_kicks''"
  "str ''penalties'' \<noteq> str ''corners_indirect_free_kicks''"
  "str ''penalties'' \<noteq> str ''notes''"
  "str ''direct_free_kicks'' \<noteq> str ''corners_indirect_free_kicks''"
  "str ''direct_free_kicks'' \<noteq> str ''notes''"
  "str ''corners_indirect_free_kicks'' \<noteq> str ''notes''"
  by (simp_all add: str_def)

lemma map_of_init_club_data:
  "map_of init_club_data (str ''penalties'') = Some []"
  "map_of init_club_data (str ''direct_free_kicks'') = Some []"
  "map_of init_club_data (str ''corners_indirect_free_kicks'') = Some []"
  "map_of init_club_data (str ''notes'') = Some []"
  using str_keys_distinct by (simp_all add: init_club_data_def)

lemma club_record_penalties:
  "map_of (club_record sec) (str ''penalties'') =
     Some (case penalties_match sec of None \<Rightarrow> [] | Some g \<Rightarrow> name_list (strip g))"
  unfolding club_record_def Let_def using str_keys_distinct
  by (simp add: update_conv' map_of_init_club_data split: option.splits prod.splits)

lemma club_record_direct_free_kicks:
  "map_of (club_record sec) (str ''direct_free_kicks'') =
     Some (case free_kicks_match sec of None \<Rightarrow> [] | Some g \<Rightarrow> name_list (strip g))"
  unfolding club_record_def Let_def using str_keys_distinct
  by (simp add: update_conv' map_of_init_club_data split: option.splits prod.splits)

lemma club_record_corners:
  "map_of (club_record sec) (str ''corners_indirect_free_kicks'') =
     Some (case corners_match sec of None \<Rightarrow> []
           | Some g \<Rightarrow> fst (classify_lines (split_on 10 (strip g)) ([], [], False)))"
  unfolding club_record_def Let_def using str_keys_distinct
  by (simp add: update_conv' map_of_init_club_data split: option.splits prod.splits)

lemma club_record_notes:
  "map_of (club_record sec) (str ''notes'') =
     Some (case corners_match sec of None \<Rightarrow> []
           | Some g \<Rightarrow> fst (snd (classify_lines (split_on 10 (strip g)) ([], [], False))))"
  unfolding club_record_def Let_def using str_keys_distinct
  by (simp add: update_conv' map_of_init_club_data split: option.splits prod.splits)

lemma club_record_no_match:
  "penalties_match sec = None \<Longrightarrow> free_kicks_match sec = None \<Longrightarrow> corners_match sec = None \<Longrightarrow>
   club_record sec = init_club_data"
  by (simp add: club_record_def)

lemma match_group_Nil_lit:
  "l \<noteq> [] \<Longrightarrow> match_group (Seq (Lit l) b) grp post [] = None"
  by (simp add: match_group_def group_matches_def)

lemma club_record_Nil: "club_record [] = init_club_data"
proof (rule club_record_no_match)
  show "penalties_match [] = None"
    by (simp add: penalties_match_def match_group_Nil_lit str_def)
  show "free_kicks_match [] = None"
    by (simp add: free_kicks_match_def match_group_Nil_lit str_def)
  show "corners_match [] = None"
    by (simp add: corners_match_def match_group_Nil_lit str_def)
qed

subsection \<open>The classification of the lines\<close>

lemma classify_lines_in_notes:
  "classify_lines ls (ct, ns, True) = (ct, ns @ filter (\<lambda>l. l \<noteq> []) (map strip ls), True)"
  by (induction ls arbitrary: ns) (simp_all add: Let_def)

lemma classify_lines_latch:
  "classify_lines ls (ct, ns, False) =
     (ct @ takeWhile (\<lambda>l. length (split_ws l) \<le> 2) (filter (\<lambda>l. l \<noteq> []) (map strip ls)),
      ns @ dropWhile (\<lambda>l. length (split_ws l) \<le> 2) (filter (\<lambda>l. l \<noteq> []) (map strip ls)),
      dropWhile (\<lambda>l. length (split_ws l) \<le> 2) (filter (\<lambda>l. l \<noteq> []) (map strip ls)) \<noteq> [])"
  by (induction ls arbitrary: ct) (simp_all add: Let_def classify_lines_in_notes)

subsection \<open>Anchors\<close>

lemma re_search_start_no_anchor:
  "re_search_start (club_pattern club) content = None \<longleftrightarrow>
     (\<forall>p. \<not> anchor_at club content p)"
proof
  assume n: "re_search_start (club_pattern club) content = None"
  show "\<forall>p. \<not> anchor_at club content p"
  proof
    fix p
    show "\<not> anchor_at club content p"
    proof (cases "p \<le> length content")
      case True
      then show ?thesis using n by (simp add: re_search_start_None anchor_at_rmatch)
    next
      case False
      then have "drop p content = drop (length content) content" by simp
      moreover have "rmatch (club_pattern club) (drop (length content) content) = []"
        using n unfolding re_search_start_None by blast
      ultimately show ?thesis by (simp add: anchor_at_rmatch)
    qed
  qed
next
  assume "\<forall>p. \<not> anchor_at club content p"
  then show "re_search_start (club_pattern club) content = None"
    by (simp add: re_search_start_None anchor_at_rmatch)
qed

lemma re_search_start_first_anchor:
  "re_search_start (club_pattern club) content = Some p \<longleftrightarrow> first_anchor club content p"
proof
  assume "re_search_start (club_pattern club) content = Some p"
  then show "first_anchor club content p"
    by (simp add: re_search_start_Some first_anchor_def anchor_at_rmatch)
next
  assume f: "first_anchor club content p"
  have "p \<le> length content"
  proof (rule ccontr)
    assume "\<not> p \<le> length content"
    then have lt: "length content < p" and "drop p content = drop (length content) content"
      by simp_all
    then have "anchor_at club content (length content)"
      using f by (simp add: first_anchor_def anchor_at_rmatch)
    then show False using f lt by (simp add: first_anchor_def)
  qed
  then show "re_search_start (club_pattern club) content = Some p"
    using f by (simp add: re_search_start_Some first_anchor_def anchor_at_rmatch)
qed

subsection \<open>Evaluation\<close>

lemma match_group_seq_lit:
  "match_group (Seq (Lit l) b) grp post s =
     (if prefix l s then match_group b grp post (drop (length l) s) else None)"
  by (simp add: match_group_def group_matches_def)

lemma match_group_ws_nl_lines:
  "match_group ws_nl lines_lazy post s =
     (case concat (map (\<lambda>s1. concat (map (\<lambda>s2. map (\<lambda>s3. take (length s1 - length s2) s1)
                                              (rmatch post s2))
                                  (line_ends s1)))
                 (ws_nl_ends s)) of [] \<Rightarrow> None | g # _ \<Rightarrow> Some g)"
  by (simp add: match_group_def group_matches_def rmatch_ws_nl rmatch_lines_lazy)

lemmas eval_search = re_search_start_def club_pattern_eq is_space_def str_def

lemmas eval_group = penalties_match_def free_kicks_match_def corners_match_def
  match_group_seq_lit match_group_ws_nl_lines is_space_def str_def

lemmas eval_record = club_record_def init_club_data_def name_list_def strip_def split_ws_def
  Let_def

lemma clubs_nth:
  "clubs ! 0 = str ''Arsenal''" "clubs ! 1 = str ''Aston Villa''" "clubs ! Suc 0 = str ''Aston Villa''"
  "clubs ! 5 = str ''Chelsea''" "clubs ! 19 = str ''Wolves''"
  by (simp_all add: clubs_def)

lemma lookup_first_anchor:
  assumes "i < length clubs" and "first_anchor (clubs ! i) content sp"
  shows "map_of (set_piece_data content) (clubs ! i) =
           Some (club_record (club_section content i sp))"
  using assms by (simp add: lookup_set_piece_data re_search_start_first_anchor[symmetric])

lemma end_pos_next:
  assumes "Suc i < length clubs"
  shows "end_pos content i =
           (case re_search_start (club_pattern (clubs ! Suc i)) content of
              Some next_start \<Rightarrow> next_start
            | None \<Rightarrow> length content)"
proof -
  have "i < length clubs - 1" using assms by arith
  then show ?thesis by (simp add: end_pos_def)
qed

lemma end_pos_last: "Suc i = length clubs \<Longrightarrow> end_pos content i = length content"
  by (auto simp: end_pos_def)


subsection \<open>Evaluation of the examples\<close>

lemma chelsea_absent:
  "re_search_start (club_pattern (str ''Chelsea'')) (arsenal_section @ aston_villa_section) = None"
  by (simp add: eval_search arsenal_section_def aston_villa_section_def)

lemma arsenal_villa_search:
  "re_search_start (club_pattern (str ''Arsenal'')) (arsenal_section @ aston_villa_section) = Some 0"
  "re_search_start (club_pattern (str ''Aston Villa'')) (arsenal_section @ aston_villa_section) = Some 95"
  "re_search_start (club_pattern (str ''Bournemouth'')) (arsenal_section @ aston_villa_section) = None"
  by (simp_all add: eval_search arsenal_section_def aston_villa_section_def)

lemma clubs_nth2: "clubs ! 2 = str ''Bournemouth''" "clubs ! Suc (Suc 0) = str ''Bournemouth''"
  by (simp_all add: clubs_def)

lemma villa_arsenal_search:
  "re_search_start (club_pattern (str ''Arsenal'')) (aston_villa_section @ arsenal_section) = Some 98"
  "re_search_start (club_pattern (str ''Aston Villa'')) (aston_villa_section @ arsenal_section) = Some 0"
  by (simp_all add: eval_search arsenal_section_def aston_villa_section_def)

lemma classify_latch_lines:
  "classify_lines latch_lines ([], [], False) =
     ([str ''Saka'', 216 # str ''degaard''],
      [str ''Set pieces depend on the opponent and situation'', str ''Rice''], True)"
  by (simp add: latch_lines_def str_def strip_def split_ws_def is_space_def)

lemma corners_match_latch_section:
  "corners_match latch_section =
     Some (str ''Saka'' @ [10] @ [216] @ str ''degaard'' @ [10]
           @ str ''Set pieces depend on the opponent and situation'' @ [10]
           @ str ''Rice'' @ [10])"
  by (simp add: eval_group latch_section_def)

lemma split_latch_block:
  "split_on 10 (strip (str ''Saka'' @ [10] @ [216] @ str ''degaard'' @ [10]
           @ str ''Set pieces depend on the opponent and situation'' @ [10]
           @ str ''Rice'' @ [10])) = latch_lines"
  by (simp add: latch_lines_def str_def strip_def is_space_def)

lemma arsenal_chelsea_search:
  "re_search_start (club_pattern (str ''Arsenal'')) (arsenal_section @ chelsea_section) = Some 0"
  "re_search_start (club_pattern (str ''Aston Villa'')) (arsenal_section @ chelsea_section) = None"
  "re_search_start (club_pattern (str ''Chelsea'')) (arsenal_section @ chelsea_section) = Some 95"
  by (simp_all add: eval_search arsenal_section_def chelsea_section_def)

lemma length_arsenal_chelsea: "length (arsenal_section @ chelsea_section) = 188"
  by (simp add: arsenal_section_def chelsea_section_def str_def)

lemma club_record_arsenal_chelsea:
  "club_record (arsenal_section @ chelsea_section) =
     [(str ''penalties'', [str ''Saka'']),
      (str ''direct_free_kicks'', [str ''Trossard'']),
      (str ''corners_indirect_free_kicks'',
         [str ''Saka'', 216 # str ''degaard'', str ''Chelsea'', str ''Penalties'',
          str ''Palmer'', str ''Direct free-kicks'', str ''James'']),
      (str ''notes'', [str ''Corners & indirect free-kicks'', str ''Palmer'', str ''James''])]"
  by (simp add: eval_record eval_group arsenal_section_def chelsea_section_def)

lemma club_record_arsenal_section:
  "club_record arsenal_section = arsenal_expected"
  by (simp add: eval_record eval_group arsenal_section_def arsenal_expected_def)

lemma end_pos_arsenal_chelsea:
  "end_pos (arsenal_section @ chelsea_section) 0 = length (arsenal_section @ chelsea_section)"
proof -
  have "Suc 0 < length clubs" by (simp add: length_clubs)
  then show ?thesis
    by (simp add: end_pos_next clubs_nth arsenal_chelsea_search)
qed

lemma end_pos_arsenal_villa:
  "end_pos (arsenal_section @ aston_villa_section) 0 = 95"
proof -
  have "Suc 0 < length clubs" by (simp add: length_clubs)
  then show ?thesis
    by (simp add: end_pos_next clubs_nth arsenal_villa_search)
qed

lemma length_arsenal_section: "length arsenal_section = 95"
  by (simp add: arsenal_section_def str_def)

lemma club_record_aston_villa_section:
  "club_record aston_villa_section = aston_villa_expected"
  by (simp add: eval_record eval_group aston_villa_section_def aston_villa_expected_def)

lemma take_drop_arsenal_villa:
  "take 95 (arsenal_section @ aston_villa_section) = arsenal_section"
  "drop 95 (arsenal_section @ aston_villa_section) = aston_villa_section"
  by (simp_all add: length_arsenal_section)

lemma rmatch_Lit_nonempty: "rmatch (Lit l) s \<noteq> [] \<longleftrightarrow> prefix l s"
  by simp

lemma rmatch_blank_or_end:
  "rmatch (Alt (Lit [10, 10]) EndZ) s \<noteq> [] \<longleftrightarrow> prefix [10, 10] s \<or> s = []"
  by auto

lemma penalties_match_needs:
  assumes "penalties_match sec = Some g"
  shows "\<exists>a b c. sec = a @ str ''Penalties'' @ b @ 10 # str ''Direct free-kicks'' @ c"
proof -
  obtain a ws post where d: "sec = a @ str ''Penalties'' @ ws @ 10 # g @ post"
    "g \<noteq> []" "last g = 10" "rmatch (Lit (str ''Direct free-kicks'')) post \<noteq> []"
    using block_match[OF assms[unfolded penalties_match_def]] by blast
  obtain c where c: "post = str ''Direct free-kicks'' @ c"
    using d(4) by (auto simp: prefix_def split: if_splits)
  have g: "g = butlast g @ [10]" using d(2,3) by (metis append_butlast_last_id)
  have "sec = a @ str ''Penalties'' @ (ws @ 10 # butlast g) @ 10 # str ''Direct free-kicks'' @ c"
    using d(1) c g by (metis append.assoc append_Cons append_Nil)
  then show ?thesis by blast
qed

lemma free_kicks_match_needs:
  assumes "free_kicks_match sec = Some g"
  shows "sublist (str ''Direct free-kicks'') sec"
proof -
  obtain a ws post where "sec = a @ str ''Direct free-kicks'' @ ws @ 10 # g @ post"
    using block_match[OF assms[unfolded free_kicks_match_def]] by blast
  then show ?thesis unfolding sublist_def by blast
qed

lemma corners_match_needs:
  assumes "corners_match sec = Some g"
  shows "(sec \<noteq> [] \<and> last sec = 10)
       \<or> (\<exists>a b c. sec = a @ str ''Corners & indirect free-kicks'' @ b @ [10, 10] @ c)"
proof -
  obtain a ws post where d: "sec = a @ str ''Corners & indirect free-kicks'' @ ws @ 10 # g @ post"
    "g \<noteq> []" "last g = 10" "rmatch (Alt (Lit [10, 10]) EndZ) post \<noteq> []"
    using block_match[OF assms[unfolded corners_match_def]] by blast
  have "prefix [10, 10] post \<or> post = []"
    using d(4) unfolding rmatch_blank_or_end .
  then show ?thesis
  proof
    assume "prefix [10, 10] post"
    then obtain c where "post = [10, 10] @ c" by (auto simp: prefix_def)
    then have "sec = a @ str ''Corners & indirect free-kicks'' @ (ws @ 10 # g) @ [10, 10] @ c"
      using d(1) by simp
    then show ?thesis by blast
  next
    assume "post = []"
    then have "sec \<noteq> [] \<and> last sec = 10" using d(1,2,3) by simp
    then show ?thesis by blast
  qed
qed

lemma no_sublist_no_later:
  "\<not> sublist x sec \<Longrightarrow> \<not> (\<exists>a b c. sec = a @ y @ b @ x @ c)"
proof
  assume n: "\<not> sublist x sec" and "\<exists>a b c. sec = a @ y @ b @ x @ c"
  then obtain a b c where "sec = a @ y @ b @ x @ c" by blast
  then have "sec = (a @ y @ b) @ x @ c" by simp
  then have "sublist x sec" unfolding sublist_def by blast
  then show False using n by simp
qed

lemma lookup_section_text:
  assumes "i < length clubs" and "first_anchor (clubs ! i) content sp"
  shows "map_of (set_piece_data content) (clubs ! i) =
           Some (club_record (take (end_pos content i - sp) (drop sp content)))"
  using lookup_first_anchor[OF assms] by (simp add: club_section_def slice_def)

lemma whole_text_section:
  assumes "re_search_start (club_pattern (str ''Aston Villa'')) content = None"
  shows "take (end_pos content 0 - 0) (drop 0 content) = content"
proof -
  have "Suc 0 < length clubs" by (simp add: length_clubs)
  then have "end_pos content 0 = length content"
    using assms by (simp add: end_pos_next clubs_nth)
  then show ?thesis by simp
qed

lemma unterminated_search:
  "re_search_start (club_pattern (str ''Arsenal'')) unterminated_section = Some 0"
  "re_search_start (club_pattern (str ''Aston Villa'')) unterminated_section = None"
  by (simp_all add: eval_search unterminated_section_def)

lemma unterminated_no_empty_line: "\<not> sublist [10, 10] unterminated_section"
  by (simp add: unterminated_section_def str_def sublist_Cons_right)

lemma unterminated_last: "last unterminated_section \<noteq> 10"
  by (simp add: unterminated_section_def str_def)

lemma unterminated_has_anchor:
  "sublist (str ''Corners & indirect free-kicks'') unterminated_section"
  unfolding unterminated_section_def sublist_def
  by (metis append.assoc)

lemma midline_search:
  "re_search_start (club_pattern (str ''Arsenal'')) midline_section = Some 0"
  "re_search_start (club_pattern (str ''Aston Villa'')) midline_section = None"
  by (simp_all add: eval_search midline_section_def)

lemma no_free_kicks_search:
  "re_search_start (club_pattern (str ''Arsenal'')) no_free_kicks_section = Some 0"
  "re_search_start (club_pattern (str ''Aston Villa'')) no_free_kicks_section = None"
  by (simp_all add: eval_search no_free_kicks_section_def)

lemma club_record_midline_section:
  "club_record midline_section =
     [(str ''penalties'', []),
      (str ''direct_free_kicks'', [str ''Trossard'']),
      (str ''corners_indirect_free_kicks'', [str ''Rice'']),
      (str ''notes'', [])]"
  by (simp add: eval_record eval_group midline_section_def)

lemma midline_no_line_start:
  "\<not> sublist (10 # str ''Direct free-kicks'') midline_section"
  by (simp add: midline_section_def str_def sublist_Cons_right)

lemma midline_has_penalties: "sublist (str ''Penalties'') midline_section"
  unfolding midline_section_def sublist_def by (metis append.assoc)

lemma no_free_kicks_nowhere:
  "\<not> sublist (str ''Direct free-kicks'') no_free_kicks_section"
  by (simp add: no_free_kicks_section_def str_def sublist_Cons_right)

lemma re_search_group_found:
  "k \<le> length s \<Longrightarrow> match_group pre grp post (drop k s) \<noteq> None \<Longrightarrow>
   re_search_group pre grp post s \<noteq> None"
proof (induction s arbitrary: k)
  case Nil
  then show ?case by simp
next
  case (Cons c t)
  show ?case
  proof (cases k)
    case 0
    then show ?thesis using Cons.prems by (auto split: option.splits)
  next
    case (Suc k')
    then have "k' \<le> length t" "match_group pre grp post (drop k' t) \<noteq> None"
      using Cons.prems by simp_all
    then have "re_search_group pre grp post t \<noteq> None" using Cons.IH by blast
    then show ?thesis by (auto split: option.splits)
  qed
qed

lemma block_match_exists:
  assumes "sec = a @ A @ ws @ 10 # g @ post"
    and "\<forall>c \<in> set ws. is_space c"
    and "g \<noteq> []" and "last g = 10"
    and "rmatch T post \<noteq> []"
  shows "re_search_group (Seq (Lit A) ws_nl) lines_lazy T sec \<noteq> None"
proof -
  let ?s = "drop (length a) sec"
  have s: "?s = A @ ws @ 10 # g @ post" using assms(1) by simp
  have "g @ post \<in> set (ws_nl_ends (ws @ 10 # g @ post))"
    unfolding ws_nl_ends_iff using assms(2) by blast
  then have s1: "g @ post \<in> set (rmatch (Seq (Lit A) ws_nl) ?s)"
    unfolding s by (simp add: rmatch_ws_nl)
  have "g = butlast g @ [10]" using assms(3,4) by (metis append_butlast_last_id)
  then have "g @ post = butlast g @ 10 # post" by (metis append.assoc append_Cons append_Nil)
  then have s2: "post \<in> set (line_ends (g @ post))"
    unfolding line_ends_iff by blast
  obtain x where x: "x \<in> set (rmatch T post)"
    using assms(5) by (cases "rmatch T post") auto
  define G where "G = (\<lambda>(s1::pystr) s2.
      map (\<lambda>s3::pystr. take (length s1 - length s2) s1) (rmatch T s2))"
  define F where "F = (\<lambda>s1. concat (map (G s1) (line_ends s1)))"
  have gm: "group_matches (Seq (Lit A) ws_nl) lines_lazy T ?s =
      concat (map F (rmatch (Seq (Lit A) ws_nl) ?s))"
    unfolding group_matches_def F_def G_def rmatch_lines_lazy ..
  have "G (g @ post) post \<noteq> []" using x unfolding G_def by auto
  then have "F (g @ post) \<noteq> []" using s2 unfolding F_def by auto
  then have "concat (map F (rmatch (Seq (Lit A) ws_nl) ?s)) \<noteq> []" using s1 by auto
  then have "group_matches (Seq (Lit A) ws_nl) lines_lazy T ?s \<noteq> []"
    unfolding gm .
  then have "match_group (Seq (Lit A) ws_nl) lines_lazy T ?s \<noteq> None"
    by (simp add: match_group_def split: list.splits)
  moreover have "length a \<le> length sec" using assms(1) by simp
  ultimately show ?thesis by (rule re_search_group_found[rotated])
qed

lemma corners_match_blank_line:
  "corners_match (blank_line_head @ blank_line_tail) = Some blank_line_tail"
  by (simp add: eval_group blank_line_head_def blank_line_tail_def)

lemma corners_match_empty_line:
  "corners_match (blank_line_head @ empty_line_tail) = Some empty_line_tail"
  by (simp add: eval_group blank_line_head_def empty_line_tail_def)

lemma classify_blank_line_tail:
  "classify_lines (split_on 10 (strip blank_line_tail)) ([], [], False) =
     ([str ''Saka'', str ''Rice''], [], False)"
  by (simp add: blank_line_tail_def str_def strip_def split_ws_def is_space_def)

lemma classify_empty_line_tail:
  "classify_lines (split_on 10 (strip empty_line_tail)) ([], [], False) =
     ([str ''Saka'', str ''Rice''], [], False)"
  by (simp add: empty_line_tail_def str_def strip_def split_ws_def is_space_def)

lemma spec_lines_blank_line_tail:
  "spec_lines_to_first_blank blank_line_tail = [str ''Saka'']"
  by (simp add: spec_lines_to_first_blank_def blank_line_tail_def str_def strip_def is_space_def)

lemma spec_lines_empty_line_tail:
  "spec_lines_to_first_blank empty_line_tail = [str ''Saka'']"
  by (simp add: spec_lines_to_first_blank_def empty_line_tail_def str_def strip_def is_space_def)

lemma file_names_differ:
  "''fpl_set_piece_takers.txt'' \<noteq> ''set_piece_takers_structured.json''"
  by simp

lemma set_piece_data_no_club: "set_piece_data [216, 10] = []"
proof -
  have "map fst (set_piece_data [216, 10]) = []"
    unfolding keys_set_piece_data by (simp add: clubs_def eval_search)
  then show ?thesis by simp
qed

lemma read_text_no_input:
  "read_text world_no_input ''fpl_set_piece_takers.txt'' = Inl FileNotFoundError"
  by (simp add: read_text_def world_no_input_def)

lemma read_text_bad_bytes:
  "read_text world_bad_bytes ''fpl_set_piece_takers.txt'' = Inl UnicodeDecodeError"
  by (simp add: read_text_def world_bad_bytes_def utf8_decode_def utf8_step_def)

lemma read_text_no_club:
  "read_text world_no_club ''fpl_set_piece_takers.txt'' = Inr [216, 10]"
  by (simp add: read_text_def world_no_club_def utf8_decode_def utf8_step_def)

section \<open>The claims\<close>

text \<open>
  Claim C5. A club of the roster whose anchor (the name of the club, optional white
  space, a line feed, the word \<^verbatim>\<open>Penalties\<close>) stands at no offset of the text read
  is not a key of the dictionary built, and the dictionary is built all the same: the
  loop raises nothing for that club.
\<close>

theorem absent_anchor_no_key:
  assumes "c \<in> set clubs" and "\<forall>p. \<not> anchor_at c content p"
  shows "c \<notin> fst ` set (set_piece_data content) \<and> map_of (set_piece_data content) c = None"
proof -
  have "re_search_start (club_pattern c) content = None"
    using assms(2) by (simp add: re_search_start_no_anchor)
  then have "c \<notin> set (map fst (set_piece_data content))"
    by (simp add: keys_set_piece_data)
  then show ?thesis by (simp add: map_of_eq_None_iff)
qed

theorem absent_anchor_no_key_witness:
  "str ''Chelsea'' \<in> set clubs
   \<and> (\<forall>p. \<not> anchor_at (str ''Chelsea'') (arsenal_section @ aston_villa_section) p)
   \<and> str ''Chelsea'' \<notin> fst ` set (set_piece_data (arsenal_section @ aston_villa_section))
   \<and> map_of (set_piece_data (arsenal_section @ aston_villa_section)) (str ''Chelsea'') = None"
proof -
  have m: "str ''Chelsea'' \<in> set clubs" by (simp add: clubs_def)
  have a: "\<forall>p. \<not> anchor_at (str ''Chelsea'') (arsenal_section @ aston_villa_section) p"
    using chelsea_absent by (simp add: re_search_start_no_anchor)
  show ?thesis using m a absent_anchor_no_key[OF m a] by blast
qed

text \<open>
  Claim C9. When the first anchor of the club at index \<open>i + 1\<close> stands earlier in the
  text than the first anchor of the club at index \<open>i\<close>, the section of club \<open>i\<close> is
  the empty string; the club has a record all the same, and its four lists are empty.
\<close>

theorem out_of_order_empty_record:
  assumes "Suc i < length clubs"
    and "first_anchor (clubs ! i) content sp"
    and "first_anchor (clubs ! Suc i) content np"
    and "np < sp"
  shows "club_section content i sp = []
       \<and> map_of (set_piece_data content) (clubs ! i) =
           Some [(str ''penalties'', []), (str ''direct_free_kicks'', []),
                 (str ''corners_indirect_free_kicks'', []), (str ''notes'', [])]"
proof -
  have i: "i < length clubs" using assms(1) by simp
  have "re_search_start (club_pattern (clubs ! Suc i)) content = Some np"
    using assms(3) by (simp add: re_search_start_first_anchor)
  then have "end_pos content i = np"
    using assms(1) by (simp add: end_pos_next)
  then have e: "club_section content i sp = []"
    using assms(4) by (simp add: club_section_def slice_def)
  then show ?thesis
    using lookup_first_anchor[OF i assms(2)]
    by (simp add: club_record_Nil init_club_data_def)
qed

theorem out_of_order_empty_record_witness:
  "Suc 0 < length clubs
   \<and> first_anchor (clubs ! 0) (aston_villa_section @ arsenal_section) 98
   \<and> first_anchor (clubs ! Suc 0) (aston_villa_section @ arsenal_section) 0
   \<and> (0::nat) < 98
   \<and> club_section (aston_villa_section @ arsenal_section) 0 98 = []
   \<and> map_of (set_piece_data (aston_villa_section @ arsenal_section)) (str ''Arsenal'') =
       Some [(str ''penalties'', []), (str ''direct_free_kicks'', []),
             (str ''corners_indirect_free_kicks'', []), (str ''notes'', [])]"
proof -
  let ?c = "aston_villa_section @ arsenal_section"
  have l1: "Suc 0 < length clubs" by (simp add: length_clubs)
  have a0: "first_anchor (clubs ! 0) ?c 98"
    using villa_arsenal_search(1) by (simp add: re_search_start_first_anchor clubs_nth)
  have a1: "first_anchor (clubs ! Suc 0) ?c 0"
    using villa_arsenal_search(2) by (simp add: re_search_start_first_anchor clubs_nth)
  have lt: "(0::nat) < 98" by simp
  show ?thesis
    using l1 a0 a1 lt out_of_order_empty_record[OF l1 a0 a1 lt] by (simp add: clubs_nth)
qed

text \<open>
  Claim C2. In the classification of the lines of the corners block, the first line of
  more than two tokens switches the classification to notes for good: the takers are
  the lines before it, the notes are that line and every line after it, whatever the
  number of its tokens. On the lines \<^verbatim>\<open>Saka\<close>, \<^verbatim>\<open>Odegaard\<close> (with its first letter
  \<^verbatim>\<open>U+00D8\<close>), \<^verbatim>\<open>Set pieces depend on the opponent and situation\<close>, \<^verbatim>\<open>Rice\<close> the
  takers are the first two lines and the notes are the last two.
\<close>

theorem classification_latch:
  "fst (classify_lines ls ([], [], False)) =
     takeWhile (\<lambda>l. length (split_ws l) \<le> 2) (filter (\<lambda>l. l \<noteq> []) (map strip ls))
   \<and> fst (snd (classify_lines ls ([], [], False))) =
     dropWhile (\<lambda>l. length (split_ws l) \<le> 2) (filter (\<lambda>l. l \<noteq> []) (map strip ls))
   \<and> classify_lines latch_lines ([], [], False) =
       ([str ''Saka'', 216 # str ''degaard''],
        [str ''Set pieces depend on the opponent and situation'', str ''Rice''], True)
   \<and> map_of (club_record latch_section) (str ''corners_indirect_free_kicks'') =
       Some [str ''Saka'', 216 # str ''degaard'']
   \<and> map_of (club_record latch_section) (str ''notes'') =
       Some [str ''Set pieces depend on the opponent and situation'', str ''Rice'']"
proof (intro conjI)
  show "fst (classify_lines ls ([], [], False)) =
     takeWhile (\<lambda>l. length (split_ws l) \<le> 2) (filter (\<lambda>l. l \<noteq> []) (map strip ls))"
    by (simp add: classify_lines_latch)
  show "fst (snd (classify_lines ls ([], [], False))) =
     dropWhile (\<lambda>l. length (split_ws l) \<le> 2) (filter (\<lambda>l. l \<noteq> []) (map strip ls))"
    by (simp add: classify_lines_latch)
  show "classify_lines latch_lines ([], [], False) =
       ([str ''Saka'', 216 # str ''degaard''],
        [str ''Set pieces depend on the opponent and situation'', str ''Rice''], True)"
    by (rule classify_latch_lines)
  show "map_of (club_record latch_section) (str ''corners_indirect_free_kicks'') =
       Some [str ''Saka'', 216 # str ''degaard'']"
    unfolding club_record_corners corners_match_latch_section
    by (simp only: option.case split_latch_block classify_latch_lines fst_conv)
  show "map_of (club_record latch_section) (str ''notes'') =
       Some [str ''Set pieces depend on the opponent and situation'', str ''Rice'']"
    unfolding club_record_notes corners_match_latch_section
    by (simp only: option.case split_latch_block classify_latch_lines fst_conv snd_conv)
qed

text \<open>
  Claim C1 as it is stated: the text is the Arsenal section of the specification
  followed by a Chelsea section of the same shape, and the record of Arsenal is to hold
  one penalty taker, one taker of direct free kicks, the two corner takers and no note,
  the section of Arsenal ending where the anchor of Chelsea starts. The code looks for
  the end of the section of Arsenal with the anchor of the next club of the roster,
  Aston Villa, which this text does not have: the section of Arsenal is the whole text
  (its end is not the offset 95 of the anchor of Chelsea), and its record is not the
  expected one.
\<close>

theorem arsenal_then_chelsea_counterexample:
  "re_search_start (club_pattern (str ''Chelsea'')) (arsenal_section @ chelsea_section) = Some 95
   \<and> end_pos (arsenal_section @ chelsea_section) 0 \<noteq> 95
   \<and> map_of (set_piece_data (arsenal_section @ chelsea_section)) (str ''Arsenal'')
       \<noteq> Some arsenal_expected"
proof -
  have l0: "0 < length clubs" by (simp add: length_clubs)
  have "club_section (arsenal_section @ chelsea_section) 0 0 = arsenal_section @ chelsea_section"
    by (simp add: club_section_def slice_def end_pos_arsenal_chelsea)
  then have "map_of (set_piece_data (arsenal_section @ chelsea_section)) (str ''Arsenal'') =
      Some (club_record (arsenal_section @ chelsea_section))"
    using lookup_set_piece_data[OF l0, of "arsenal_section @ chelsea_section"]
    by (simp add: clubs_nth arsenal_chelsea_search)
  moreover have "club_record (arsenal_section @ chelsea_section) \<noteq> arsenal_expected"
    unfolding club_record_arsenal_chelsea by (simp add: arsenal_expected_def)
  ultimately show ?thesis
    by (simp add: arsenal_chelsea_search end_pos_arsenal_chelsea length_arsenal_chelsea
          del: length_append)
qed

text \<open>
  Claim C1, amended: when the Arsenal section of the specification is followed by a
  section of the same shape for Aston Villa, the club after Arsenal in the roster, the
  section of Arsenal ends where the anchor of Aston Villa starts (offset 95), it is the
  Arsenal section itself, and the record of Arsenal is the expected one.
\<close>

theorem arsenal_then_aston_villa:
  "re_search_start (club_pattern (str ''Aston Villa'')) (arsenal_section @ aston_villa_section)
     = Some 95
   \<and> end_pos (arsenal_section @ aston_villa_section) 0 = 95
   \<and> club_section (arsenal_section @ aston_villa_section) 0 0 = arsenal_section
   \<and> map_of (set_piece_data (arsenal_section @ aston_villa_section)) (str ''Arsenal'')
       = Some arsenal_expected"
proof -
  have l0: "0 < length clubs" by (simp add: length_clubs)
  have s: "club_section (arsenal_section @ aston_villa_section) 0 0 = arsenal_section"
    by (simp add: club_section_def slice_def end_pos_arsenal_villa length_arsenal_section)
  then have "map_of (set_piece_data (arsenal_section @ aston_villa_section)) (str ''Arsenal'') =
      Some (club_record arsenal_section)"
    using lookup_set_piece_data[OF l0, of "arsenal_section @ aston_villa_section"]
    by (simp add: clubs_nth arsenal_villa_search)
  then show ?thesis
    using s by (simp add: arsenal_villa_search end_pos_arsenal_villa club_record_arsenal_section)
qed

text \<open>
  Claim C4. For a club at index \<open>i\<close> of the roster whose anchor is found at the offset
  \<open>sp\<close>, the section of the club is the text from \<open>sp\<close> up to the end offset, and the
  end offset is the offset of the first anchor of the club at index \<open>i + 1\<close> in the
  whole text; when the club is the last one of the roster, or the next club has no
  anchor in the text, the section runs from \<open>sp\<close> to the end of the text. The record
  of the club is the one extracted from that text.
\<close>

theorem section_end_offset:
  assumes "i < length clubs" and "first_anchor (clubs ! i) content sp"
  shows "club_section content i sp = take (end_pos content i - sp) (drop sp content)
       \<and> map_of (set_piece_data content) (clubs ! i) =
           Some (club_record (take (end_pos content i - sp) (drop sp content)))
       \<and> (\<forall>q. Suc i < length clubs \<and> first_anchor (clubs ! Suc i) content q
              \<longrightarrow> end_pos content i = q
                \<and> map_of (set_piece_data content) (clubs ! i) =
                    Some (club_record (take (q - sp) (drop sp content))))
       \<and> (Suc i = length clubs \<or> (\<forall>p. \<not> anchor_at (clubs ! Suc i) content p)
              \<longrightarrow> end_pos content i = length content
                \<and> map_of (set_piece_data content) (clubs ! i) =
                    Some (club_record (drop sp content)))"
proof -
  have sec: "club_section content i sp = take (end_pos content i - sp) (drop sp content)"
    by (simp add: club_section_def slice_def)
  have rec: "map_of (set_piece_data content) (clubs ! i) =
           Some (club_record (take (end_pos content i - sp) (drop sp content)))"
    using lookup_first_anchor[OF assms] sec by simp
  have nxt: "end_pos content i = q"
    if "Suc i < length clubs \<and> first_anchor (clubs ! Suc i) content q" for q
  proof -
    have "Suc i < length clubs"
      and "re_search_start (club_pattern (clubs ! Suc i)) content = Some q"
      using that by (simp_all add: re_search_start_first_anchor)
    then show ?thesis by (simp add: end_pos_next)
  qed
  have lst: "end_pos content i = length content"
    if "Suc i = length clubs \<or> (\<forall>p. \<not> anchor_at (clubs ! Suc i) content p)"
    using that
  proof
    assume "Suc i = length clubs"
    then show ?thesis by (rule end_pos_last)
  next
    assume "\<forall>p. \<not> anchor_at (clubs ! Suc i) content p"
    then have "re_search_start (club_pattern (clubs ! Suc i)) content = None"
      by (simp add: re_search_start_no_anchor)
    then show ?thesis by (auto simp: end_pos_def)
  qed
  have "map_of (set_piece_data content) (clubs ! i) =
          Some (club_record (take (q - sp) (drop sp content)))"
    if "Suc i < length clubs \<and> first_anchor (clubs ! Suc i) content q" for q
    using rec nxt[OF that] by simp
  moreover have "map_of (set_piece_data content) (clubs ! i) =
          Some (club_record (drop sp content))"
    if "Suc i = length clubs \<or> (\<forall>p. \<not> anchor_at (clubs ! Suc i) content p)"
    using rec lst[OF that] by simp
  ultimately show ?thesis using sec rec nxt lst by blast
qed

theorem section_end_offset_witness:
  "0 < length clubs
   \<and> first_anchor (clubs ! 0) (arsenal_section @ aston_villa_section) 0
   \<and> Suc 0 < length clubs
   \<and> first_anchor (clubs ! Suc 0) (arsenal_section @ aston_villa_section) 95
   \<and> end_pos (arsenal_section @ aston_villa_section) 0 = 95
   \<and> club_section (arsenal_section @ aston_villa_section) 0 0 = arsenal_section
   \<and> map_of (set_piece_data (arsenal_section @ aston_villa_section)) (str ''Arsenal'') =
       Some arsenal_expected
   \<and> (\<forall>p. \<not> anchor_at (clubs ! Suc (Suc 0)) (arsenal_section @ aston_villa_section) p)
   \<and> end_pos (arsenal_section @ aston_villa_section) (Suc 0) = 193
   \<and> length (arsenal_section @ aston_villa_section) = 193
   \<and> club_section (arsenal_section @ aston_villa_section) (Suc 0) 95 = aston_villa_section
   \<and> map_of (set_piece_data (arsenal_section @ aston_villa_section)) (str ''Aston Villa'') =
       Some aston_villa_expected"
proof -
  let ?c = "arsenal_section @ aston_villa_section"
  have l0: "0 < length clubs" and l1: "Suc 0 < length clubs" by (simp_all add: length_clubs)
  have a0: "first_anchor (clubs ! 0) ?c 0"
    using arsenal_villa_search(1) by (simp add: re_search_start_first_anchor clubs_nth)
  have a1: "first_anchor (clubs ! Suc 0) ?c 95"
    using arsenal_villa_search(2) by (simp add: re_search_start_first_anchor clubs_nth)
  have a2: "\<forall>p. \<not> anchor_at (clubs ! Suc (Suc 0)) ?c p"
    using arsenal_villa_search(3) by (simp add: re_search_start_no_anchor clubs_nth2)
  have len: "length ?c = 193"
    by (simp add: arsenal_section_def aston_villa_section_def str_def)
  have e0: "end_pos ?c 0 = 95"
    and r0: "map_of (set_piece_data ?c) (clubs ! 0) = Some (club_record (take (95 - 0) (drop 0 ?c)))"
    using section_end_offset[OF l0 a0] l1 a1 by blast+
  have s0: "club_section ?c 0 0 = take (end_pos ?c 0 - 0) (drop 0 ?c)"
    using section_end_offset[OF l0 a0] by blast
  have e1: "end_pos ?c (Suc 0) = length ?c"
    and r1: "map_of (set_piece_data ?c) (clubs ! Suc 0) = Some (club_record (drop 95 ?c))"
    using section_end_offset[OF l1 a1] a2 by blast+
  have s1: "club_section ?c (Suc 0) 95 = take (end_pos ?c (Suc 0) - 95) (drop 95 ?c)"
    using section_end_offset[OF l1 a1] by blast
  have t0: "club_section ?c 0 0 = arsenal_section"
    unfolding s0 e0 using take_drop_arsenal_villa(1) by simp
  have t1: "club_section ?c (Suc 0) 95 = aston_villa_section"
    unfolding s1 e1 take_drop_arsenal_villa(2) len
    by (simp add: aston_villa_section_def str_def)
  have m0: "map_of (set_piece_data ?c) (str ''Arsenal'') = Some arsenal_expected"
    using r0 take_drop_arsenal_villa(1)
    by (simp add: clubs_nth club_record_arsenal_section del: take_append)
  have m1: "map_of (set_piece_data ?c) (str ''Aston Villa'') = Some aston_villa_expected"
    using r1 unfolding take_drop_arsenal_villa(2)
    by (simp add: clubs_nth club_record_aston_villa_section)
  show ?thesis
    using l0 l1 a0 a1 a2 e0 e1 len t0 t1 m0 m1 by simp
qed

text \<open>
  Claim C10. When the section of a club contains the anchor
  \<^verbatim>\<open>Corners & indirect free-kicks\<close>, does not end with a line feed and has no empty line
  after the anchor, the lists of corner takers and of notes of the club are both empty:
  the last line, which no line feed ends, is never captured, and nothing else is.
\<close>

theorem unterminated_corners_block:
  assumes "i < length clubs"
    and "first_anchor (clubs ! i) content sp"
    and "sec = take (end_pos content i - sp) (drop sp content)"
    and "sublist (str ''Corners & indirect free-kicks'') sec"
    and "last sec \<noteq> 10"
    and "\<not> (\<exists>a b c. sec = a @ str ''Corners & indirect free-kicks'' @ b @ [10, 10] @ c)"
  shows "\<exists>r. map_of (set_piece_data content) (clubs ! i) = Some r
           \<and> map_of r (str ''corners_indirect_free_kicks'') = Some []
           \<and> map_of r (str ''notes'') = Some []"
proof -
  have "corners_match sec = None"
  proof (cases "corners_match sec")
    case None
    then show ?thesis .
  next
    case (Some g)
    then show ?thesis using corners_match_needs[OF Some] assms(5,6) by blast
  qed
  then have "map_of (club_record sec) (str ''corners_indirect_free_kicks'') = Some []"
    and "map_of (club_record sec) (str ''notes'') = Some []"
    by (simp_all add: club_record_corners club_record_notes)
  then show ?thesis
    using lookup_section_text[OF assms(1,2)] assms(3) by simp
qed

theorem unterminated_corners_block_witness:
  "0 < length clubs
   \<and> first_anchor (clubs ! 0) unterminated_section 0
   \<and> unterminated_section =
       take (end_pos unterminated_section 0 - 0) (drop 0 unterminated_section)
   \<and> sublist (str ''Corners & indirect free-kicks'') unterminated_section
   \<and> last unterminated_section \<noteq> 10
   \<and> \<not> (\<exists>a b c. unterminated_section =
              a @ str ''Corners & indirect free-kicks'' @ b @ [10, 10] @ c)
   \<and> (\<exists>r. map_of (set_piece_data unterminated_section) (clubs ! 0) = Some r
           \<and> map_of r (str ''corners_indirect_free_kicks'') = Some []
           \<and> map_of r (str ''notes'') = Some [])"
proof -
  have l0: "0 < length clubs" by (simp add: length_clubs)
  have a0: "first_anchor (clubs ! 0) unterminated_section 0"
    using unterminated_search(1) by (simp add: re_search_start_first_anchor clubs_nth)
  have s: "unterminated_section =
       take (end_pos unterminated_section 0 - 0) (drop 0 unterminated_section)"
    using whole_text_section[OF unterminated_search(2)] by simp
  have n: "\<not> (\<exists>a b c. unterminated_section =
              a @ str ''Corners & indirect free-kicks'' @ b @ [10, 10] @ c)"
    using no_sublist_no_later[OF unterminated_no_empty_line] .
  show ?thesis
    using l0 a0 s unterminated_has_anchor unterminated_last n
      unterminated_corners_block[OF l0 a0 s unterminated_has_anchor unterminated_last n]
    by blast
qed

text \<open>
  Claim C6 as it is stated: the section has an anchor \<^verbatim>\<open>Penalties\<close> and no line that
  starts with \<^verbatim>\<open>Direct free-kicks\<close>, so both lists are to be empty. In the section
  below the words \<^verbatim>\<open>Direct free-kicks\<close> stand in the middle of a line. No line starts
  with them and the list of penalty takers is empty, but the pattern of the direct free
  kicks is not tied to the start of a line: it matches there, and the list of direct
  free kicks is not empty.
\<close>

theorem midline_free_kicks_counterexample:
  "sublist (str ''Penalties'') midline_section
   \<and> \<not> sublist (10 # str ''Direct free-kicks'') midline_section
   \<and> take (end_pos midline_section 0 - 0) (drop 0 midline_section) = midline_section
   \<and> map_of (set_piece_data midline_section) (str ''Arsenal'') =
       Some [(str ''penalties'', []),
             (str ''direct_free_kicks'', [str ''Trossard'']),
             (str ''corners_indirect_free_kicks'', [str ''Rice'']),
             (str ''notes'', [])]"
proof -
  have l0: "0 < length clubs" by (simp add: length_clubs)
  have a0: "first_anchor (clubs ! 0) midline_section 0"
    using midline_search(1) by (simp add: re_search_start_first_anchor clubs_nth)
  have s: "take (end_pos midline_section 0 - 0) (drop 0 midline_section) = midline_section"
    using whole_text_section[OF midline_search(2)] .
  have "map_of (set_piece_data midline_section) (str ''Arsenal'') =
      Some (club_record midline_section)"
    using lookup_section_text[OF l0 a0] unfolding s by (simp add: clubs_nth)
  then show ?thesis
    using midline_has_penalties midline_no_line_start s
    by (simp add: club_record_midline_section)
qed

text \<open>
  Claim C6, amended: for a club whose anchor is found, extraction gives the club a
  record; its list of penalty takers is empty when the section has no line starting
  with \<^verbatim>\<open>Direct free-kicks\<close> after an anchor \<^verbatim>\<open>Penalties\<close>, and its list of direct free
  kicks is empty too when the words \<^verbatim>\<open>Direct free-kicks\<close> stand nowhere in the
  section.
\<close>

theorem no_direct_free_kicks_anchor:
  assumes "i < length clubs"
    and "first_anchor (clubs ! i) content sp"
    and "sec = take (end_pos content i - sp) (drop sp content)"
  shows "\<exists>r. map_of (set_piece_data content) (clubs ! i) = Some r
           \<and> (\<not> (\<exists>a b c. sec = a @ str ''Penalties'' @ b
                                @ 10 # str ''Direct free-kicks'' @ c)
                \<longrightarrow> map_of r (str ''penalties'') = Some [])
           \<and> (\<not> sublist (str ''Direct free-kicks'') sec
                \<longrightarrow> map_of r (str ''penalties'') = Some []
                  \<and> map_of r (str ''direct_free_kicks'') = Some [])"
proof -
  have p: "penalties_match sec = None"
    if "\<not> (\<exists>a b c. sec = a @ str ''Penalties'' @ b @ 10 # str ''Direct free-kicks'' @ c)"
  proof (cases "penalties_match sec")
    case None
    then show ?thesis .
  next
    case (Some g)
    then show ?thesis using penalties_match_needs[OF Some] that by blast
  qed
  have n: "\<not> (\<exists>a b c. sec = a @ str ''Penalties'' @ b @ 10 # str ''Direct free-kicks'' @ c)"
    if h: "\<not> sublist (str ''Direct free-kicks'') sec"
  proof
    assume "\<exists>a b c. sec = a @ str ''Penalties'' @ b @ 10 # str ''Direct free-kicks'' @ c"
    then obtain a b c where "sec = a @ str ''Penalties'' @ b @ 10 # str ''Direct free-kicks'' @ c"
      by blast
    then have "sec = (a @ str ''Penalties'' @ b @ [10]) @ str ''Direct free-kicks'' @ c"
      by simp
    then have "sublist (str ''Direct free-kicks'') sec" unfolding sublist_def by blast
    then show False using h by simp
  qed
  have f: "free_kicks_match sec = None" if "\<not> sublist (str ''Direct free-kicks'') sec"
  proof (cases "free_kicks_match sec")
    case None
    then show ?thesis .
  next
    case (Some g)
    then show ?thesis using free_kicks_match_needs[OF Some] that by blast
  qed
  have "map_of (club_record sec) (str ''penalties'') = Some []"
    if "\<not> (\<exists>a b c. sec = a @ str ''Penalties'' @ b @ 10 # str ''Direct free-kicks'' @ c)"
    using p[OF that] by (simp add: club_record_penalties)
  moreover have "map_of (club_record sec) (str ''penalties'') = Some []
      \<and> map_of (club_record sec) (str ''direct_free_kicks'') = Some []"
    if "\<not> sublist (str ''Direct free-kicks'') sec"
    using p[OF n[OF that]] f[OF that]
    by (simp add: club_record_penalties club_record_direct_free_kicks)
  ultimately show ?thesis
    using lookup_section_text[OF assms(1,2)] assms(3) by simp
qed

theorem no_direct_free_kicks_anchor_witness:
  "0 < length clubs
   \<and> first_anchor (clubs ! 0) no_free_kicks_section 0
   \<and> no_free_kicks_section =
       take (end_pos no_free_kicks_section 0 - 0) (drop 0 no_free_kicks_section)
   \<and> \<not> sublist (str ''Direct free-kicks'') no_free_kicks_section
   \<and> \<not> (\<exists>a b c. no_free_kicks_section =
              a @ str ''Penalties'' @ b @ 10 # str ''Direct free-kicks'' @ c)
   \<and> (\<exists>r. map_of (set_piece_data no_free_kicks_section) (clubs ! 0) = Some r
           \<and> map_of r (str ''penalties'') = Some []
           \<and> map_of r (str ''direct_free_kicks'') = Some [])"
proof -
  have l0: "0 < length clubs" by (simp add: length_clubs)
  have a0: "first_anchor (clubs ! 0) no_free_kicks_section 0"
    using no_free_kicks_search(1) by (simp add: re_search_start_first_anchor clubs_nth)
  have s: "no_free_kicks_section =
       take (end_pos no_free_kicks_section 0 - 0) (drop 0 no_free_kicks_section)"
    using whole_text_section[OF no_free_kicks_search(2)] by simp
  have n: "\<not> (\<exists>a b c. no_free_kicks_section =
              a @ str ''Penalties'' @ b @ 10 # str ''Direct free-kicks'' @ c)"
  proof
    assume "\<exists>a b c. no_free_kicks_section =
              a @ str ''Penalties'' @ b @ 10 # str ''Direct free-kicks'' @ c"
    then obtain a b c where "no_free_kicks_section =
        (a @ str ''Penalties'' @ b @ [10]) @ str ''Direct free-kicks'' @ c"
      by auto
    then have "sublist (str ''Direct free-kicks'') no_free_kicks_section"
      unfolding sublist_def by blast
    then show False using no_free_kicks_nowhere by simp
  qed
  show ?thesis
    using l0 a0 s no_free_kicks_nowhere n no_direct_free_kicks_anchor[OF l0 a0 s]
    by blast
qed

text \<open>
  Claim C3 as it is stated: the block captured after the anchor
  \<^verbatim>\<open>Corners & indirect free-kicks\<close> stops at the first blank line, a line of white space
  only. In the two sections below the anchor line is followed by the line \<^verbatim>\<open>Saka\<close>, a
  blank line (one blank in the first section, nothing in the second) and the line
  \<^verbatim>\<open>Rice\<close>. The lines up to the first blank line are the one line \<^verbatim>\<open>Saka\<close>, but the
  block captured is all that follows the anchor line, and \<^verbatim>\<open>Rice\<close> is a corner taker
  of the record.
\<close>

theorem blank_line_counterexample:
  "spec_lines_to_first_blank blank_line_tail = [str ''Saka'']
   \<and> corners_match (blank_line_head @ blank_line_tail) = Some blank_line_tail
   \<and> map_of (club_record (blank_line_head @ blank_line_tail))
         (str ''corners_indirect_free_kicks'') = Some [str ''Saka'', str ''Rice'']
   \<and> spec_lines_to_first_blank empty_line_tail = [str ''Saka'']
   \<and> corners_match (blank_line_head @ empty_line_tail) = Some empty_line_tail
   \<and> map_of (club_record (blank_line_head @ empty_line_tail))
         (str ''corners_indirect_free_kicks'') = Some [str ''Saka'', str ''Rice'']"
proof -
  have "map_of (club_record (blank_line_head @ blank_line_tail))
         (str ''corners_indirect_free_kicks'') = Some [str ''Saka'', str ''Rice'']"
    unfolding club_record_corners corners_match_blank_line
    by (simp only: option.case classify_blank_line_tail fst_conv)
  moreover have "map_of (club_record (blank_line_head @ empty_line_tail))
         (str ''corners_indirect_free_kicks'') = Some [str ''Saka'', str ''Rice'']"
    unfolding club_record_corners corners_match_empty_line
    by (simp only: option.case classify_empty_line_tail fst_conv)
  ultimately show ?thesis
    using spec_lines_blank_line_tail spec_lines_empty_line_tail
      corners_match_blank_line corners_match_empty_line by simp
qed

text \<open>
  Claim C3, amended: within the section of a club, a block is captured after the anchor
  \<^verbatim>\<open>Corners & indirect free-kicks\<close> exactly when the anchor, white space and a line feed
  are followed by one or more whole lines after which come two line feeds or the end
  of the section. The block captured starts after such an anchor line, is made of
  whole lines, and extends to the first of its line ends that is followed by two line
  feeds, or else to the end of the section. A line of white space only does not end
  the block, and one empty line does not either.
\<close>

theorem corners_block_extent:
  "(corners_match sec \<noteq> None \<longleftrightarrow>
      (\<exists>a ws g post. sec = a @ str ''Corners & indirect free-kicks'' @ ws @ 10 # g @ post
          \<and> (\<forall>c \<in> set ws. is_space c) \<and> g \<noteq> [] \<and> last g = 10
          \<and> (post = [] \<or> prefix [10, 10] post)))
   \<and> (\<forall>g. corners_match sec = Some g \<longrightarrow>
      (\<exists>a ws post. sec = a @ str ''Corners & indirect free-kicks'' @ ws @ 10 # g @ post
          \<and> (\<forall>c \<in> set ws. is_space c) \<and> g \<noteq> [] \<and> last g = 10
          \<and> (post = [] \<or> prefix [10, 10] post)
          \<and> (\<forall>g' r. g = g' @ r \<and> g' \<noteq> [] \<and> last g' = 10 \<and> r \<noteq> []
                 \<longrightarrow> \<not> prefix [10, 10] (r @ post))))"
proof -
  let ?A = "str ''Corners & indirect free-kicks''"
  have ext: "\<exists>a ws post. sec = a @ ?A @ ws @ 10 # g @ post
          \<and> (\<forall>c \<in> set ws. is_space c) \<and> g \<noteq> [] \<and> last g = 10
          \<and> (post = [] \<or> prefix [10, 10] post)
          \<and> (\<forall>g' r. g = g' @ r \<and> g' \<noteq> [] \<and> last g' = 10 \<and> r \<noteq> []
                 \<longrightarrow> \<not> prefix [10, 10] (r @ post))"
    if m: "corners_match sec = Some g" for g
  proof -
    obtain a ws post where d: "sec = a @ ?A @ ws @ 10 # g @ post"
      "\<forall>c \<in> set ws. is_space c" "g \<noteq> []" "last g = 10"
      "rmatch (Alt (Lit [10, 10]) EndZ) post \<noteq> []"
      "\<forall>g' r. g = g' @ r \<and> g' \<noteq> [] \<and> last g' = 10 \<and> r \<noteq> [] \<longrightarrow>
                   rmatch (Alt (Lit [10, 10]) EndZ) (r @ post) = []"
      using block_match[OF m[unfolded corners_match_def]] by blast
    have e: "post = [] \<or> prefix [10, 10] post"
      using d(5) unfolding rmatch_blank_or_end by blast
    have "\<not> prefix [10, 10] (r @ post)"
      if h: "g = g' @ r \<and> g' \<noteq> [] \<and> last g' = 10 \<and> r \<noteq> []" for g' r
    proof -
      have "\<not> rmatch (Alt (Lit [10, 10]) EndZ) (r @ post) \<noteq> []"
        using d(6) h by blast
      then show ?thesis unfolding rmatch_blank_or_end by blast
    qed
    then show ?thesis using d(1,2,3,4) e by blast
  qed
  have found: "corners_match sec \<noteq> None"
    if h: "\<exists>a ws g post. sec = a @ ?A @ ws @ 10 # g @ post
          \<and> (\<forall>c \<in> set ws. is_space c) \<and> g \<noteq> [] \<and> last g = 10
          \<and> (post = [] \<or> prefix [10, 10] post)"
  proof -
    obtain a ws g post where d: "sec = a @ ?A @ ws @ 10 # g @ post"
      "\<forall>c \<in> set ws. is_space c" "g \<noteq> []" "last g = 10" "post = [] \<or> prefix [10, 10] post"
      using h by blast
    have "rmatch (Alt (Lit [10, 10]) EndZ) post \<noteq> []"
      unfolding rmatch_blank_or_end using d(5) by blast
    then show ?thesis
      unfolding corners_match_def using block_match_exists[OF d(1,2,3,4)] by blast
  qed
  have shape: "\<exists>a ws g post. sec = a @ ?A @ ws @ 10 # g @ post
          \<and> (\<forall>c \<in> set ws. is_space c) \<and> g \<noteq> [] \<and> last g = 10
          \<and> (post = [] \<or> prefix [10, 10] post)"
    if h: "corners_match sec \<noteq> None"
  proof -
    obtain g where "corners_match sec = Some g" using h by auto
    then show ?thesis using ext by blast
  qed
  show ?thesis using ext found shape by blast
qed

theorem corners_block_extent_witness:
  "corners_match (blank_line_head @ blank_line_tail) = Some blank_line_tail
   \<and> (\<exists>a ws post. blank_line_head @ blank_line_tail =
            a @ str ''Corners & indirect free-kicks'' @ ws @ 10 # blank_line_tail @ post
          \<and> (\<forall>c \<in> set ws. is_space c) \<and> blank_line_tail \<noteq> [] \<and> last blank_line_tail = 10
          \<and> (post = [] \<or> prefix [10, 10] post)
          \<and> (\<forall>g' r. blank_line_tail = g' @ r \<and> g' \<noteq> [] \<and> last g' = 10 \<and> r \<noteq> []
                 \<longrightarrow> \<not> prefix [10, 10] (r @ post)))"
  using corners_match_blank_line corners_block_extent[of "blank_line_head @ blank_line_tail"]
  by blast

text \<open>
  Claim C8. When the input file cannot be read, because it is not there or because its
  bytes are not UTF-8, the script ends with that error and the state is the one it
  started in: the output file is neither created nor changed. The output file is
  written only after the input has been read and the whole dictionary built, with the
  JSON text of that dictionary.
\<close>

theorem read_failure_no_output:
  "(\<forall>e. read_text w ''fpl_set_piece_takers.txt'' = Inl e
        \<longrightarrow> extract_set_piece_data w = (Inl e, w)
          \<and> files (snd (extract_set_piece_data w)) ''set_piece_takers_structured.json''
              = files w ''set_piece_takers_structured.json'')
   \<and> (files w ''fpl_set_piece_takers.txt'' = None
        \<longrightarrow> read_text w ''fpl_set_piece_takers.txt'' = Inl FileNotFoundError)
   \<and> (\<forall>bytes. files w ''fpl_set_piece_takers.txt'' = Some bytes \<and> utf8_decode bytes = None
        \<longrightarrow> read_text w ''fpl_set_piece_takers.txt'' = Inl UnicodeDecodeError)
   \<and> (\<forall>content. read_text w ''fpl_set_piece_takers.txt'' = Inr content
          \<and> \<not> read_only w ''set_piece_takers_structured.json''
        \<longrightarrow> fst (extract_set_piece_data w) = Inr ()
          \<and> files (snd (extract_set_piece_data w)) ''set_piece_takers_structured.json''
              = Some (utf8_encode (json_dumps (set_piece_data content))))"
  by (auto simp: extract_set_piece_data_def read_text_def write_text_def
      split: option.splits sum.splits)

theorem read_failure_no_output_witness:
  "read_text world_no_input ''fpl_set_piece_takers.txt'' = Inl FileNotFoundError
   \<and> extract_set_piece_data world_no_input = (Inl FileNotFoundError, world_no_input)
   \<and> files world_bad_bytes ''fpl_set_piece_takers.txt'' = Some [83, 97, 255, 107, 97]
   \<and> utf8_decode [83, 97, 255, 107, 97] = None
   \<and> extract_set_piece_data world_bad_bytes = (Inl UnicodeDecodeError, world_bad_bytes)
   \<and> files (snd (extract_set_piece_data world_bad_bytes)) ''set_piece_takers_structured.json''
       = Some [111, 108, 100]
   \<and> read_text world_no_club ''fpl_set_piece_takers.txt'' = Inr [216, 10]
   \<and> \<not> read_only world_no_club ''set_piece_takers_structured.json''
   \<and> fst (extract_set_piece_data world_no_club) = Inr ()
   \<and> files (snd (extract_set_piece_data world_no_club)) ''set_piece_takers_structured.json''
       = Some [123, 125]"
proof -
  have d: "utf8_decode [83, 97, 255, 107, 97] = None"
    by (simp add: utf8_decode_def utf8_step_def)
  have f: "files world_bad_bytes ''fpl_set_piece_takers.txt'' = Some [83, 97, 255, 107, 97]"
    by (simp add: world_bad_bytes_def)
  have o: "files world_bad_bytes ''set_piece_takers_structured.json'' = Some [111, 108, 100]"
    by (simp add: world_bad_bytes_def)
  have w: "\<not> read_only world_no_club ''set_piece_takers_structured.json''"
    by (simp add: world_no_club_def)
  have j: "utf8_encode (json_dumps (set_piece_data [216, 10])) = [123, 125]"
    by (simp add: set_piece_data_no_club json_dumps_def json_object_def utf8_encode_def
        utf8_encode_char_def)
  have b: "read_text world_bad_bytes ''fpl_set_piece_takers.txt'' = Inl UnicodeDecodeError"
    using read_failure_no_output[of world_bad_bytes] f d by blast
  show ?thesis
    using read_failure_no_output[of world_no_input] read_text_no_input
      read_failure_no_output[of world_bad_bytes] b f d o
      read_failure_no_output[of world_no_club] read_text_no_club w j
    by simp
qed

end
